theory Spec2Isabelle
  imports Complex_Main "HOL-Library.Log_Nat" "HOL-Library.Sublist"
begin

section \<open>Python values used by the download orchestrator\<close>

text \<open>
  The embedding follows \<^verbatim>\<open>desktop_app.py\<close> (the Tkinter application: job records, the
  event queue, the worker and its progress hook) and the URL guard of \<^verbatim>\<open>main.py\<close>.

  A Python \<^verbatim>\<open>str\<close> is a sequence of Unicode code points, so it is modelled as a list of
  natural numbers; \<open>ascii\<close> turns an ASCII literal into such a list. Literals of the source
  that are written in Arabic are given by their code points.
\<close>

type_synonym pystr = "nat list"

definition ascii :: "string \<Rightarrow> pystr" where
  "ascii s = map of_char s"

text \<open>The code points that \<^verbatim>\<open>str.strip()\<close> removes (those with \<^verbatim>\<open>str.isspace()\<close>).\<close>

definition py_isspace :: "nat \<Rightarrow> bool" where
  "py_isspace c =
     ((9 \<le> c \<and> c \<le> 13) \<or> (28 \<le> c \<and> c \<le> 32) \<or> c = 133 \<or> c = 160 \<or> c = 5760
      \<or> (8192 \<le> c \<and> c \<le> 8202) \<or> c = 8232 \<or> c = 8233 \<or> c = 8239 \<or> c = 8287
      \<or> c = 12288)"

definition strip :: "pystr \<Rightarrow> pystr" where
  "strip s = rev (dropWhile py_isspace (rev (dropWhile py_isspace s)))"

text \<open>\<^verbatim>\<open>needle in hay\<close> on strings: \<open>needle\<close> occurs as a contiguous substring.\<close>

fun py_in :: "pystr \<Rightarrow> pystr \<Rightarrow> bool" where
  "py_in needle [] = (needle = [])"
| "py_in needle (c # cs) = (prefix needle (c # cs) \<or> py_in needle cs)"

subsection \<open>Double-precision arithmetic of the percent expression\<close>

text \<open>
  The hook computes \<^verbatim>\<open>int(downloaded / total * 100)\<close>. On Python integers \<^verbatim>\<open>/\<close> is true
  division: the exact quotient rounded to the nearest IEEE binary64 value, ties to even;
  the product with \<^verbatim>\<open>100\<close> is rounded the same way, and \<^verbatim>\<open>int\<close> truncates towards
  zero. A finite double is represented by the rational it denotes. \<open>ilog2 q\<close> is the
  binary exponent of a positive rational, \<open>ulp_exp q\<close> the exponent of the last mantissa
  bit of the doubles around \<open>q\<close> (53 bits of precision, subnormals below \<open>2 powi (- 1022)\<close>).
\<close>

definition round_half_even :: "rat \<Rightarrow> int" where
  "round_half_even q =
     (let f = \<lfloor>q\<rfloor>; r = q - of_int f
      in if r < 1 / 2 then f
         else if 1 / 2 < r then f + 1
         else if even f then f else f + 1)"

definition ilog2 :: "rat \<Rightarrow> int" where
  "ilog2 q =
     (let (a, b) = quotient_of q; k = bitlen a - bitlen b
      in if 2 powi k \<le> q then k else k - 1)"

definition ulp_exp :: "rat \<Rightarrow> int" where
  "ulp_exp q = max (ilog2 q - 52) (- 1074)"

definition nearest_double :: "rat \<Rightarrow> rat" where
  "nearest_double q =
     (if q = 0 then 0
      else let e = ulp_exp \<bar>q\<bar>
           in of_int (round_half_even (q / 2 powi e)) * 2 powi e)"

text \<open>A result whose magnitude reaches \<open>2 powi 1024\<close> is not a finite double.\<close>

definition to_double :: "rat \<Rightarrow> rat option" where
  "to_double q = (let v = nearest_double q in if 2 powi 1024 \<le> \<bar>v\<bar> then None else Some v)"

text \<open>
  Exceptions are represented by their message \<^verbatim>\<open>str(e)\<close>, which is all the worker's
  handler looks at. \<open>true_div\<close> is \<^verbatim>\<open>a / b\<close> on integers, \<open>float_mul\<close> is \<^verbatim>\<open>x * y\<close> on
  floats (\<open>None\<close> stands for an infinite result, which Python returns without raising),
  \<open>py_int\<close> is \<^verbatim>\<open>int(x)\<close> on a float.
\<close>

definition true_div :: "int \<Rightarrow> int \<Rightarrow> pystr + rat" where
  "true_div a b =
     (if b = 0 then Inl (ascii ''division by zero'')
      else case to_double (of_int a / of_int b) of
             None \<Rightarrow> Inl (ascii ''integer division result too large for a float'')
           | Some x \<Rightarrow> Inr x)"

definition float_mul :: "rat \<Rightarrow> rat \<Rightarrow> rat option" where
  "float_mul x y = to_double (x * y)"

definition py_int :: "rat option \<Rightarrow> pystr + int" where
  "py_int x =
     (case x of
        None \<Rightarrow> Inl (ascii ''cannot convert float infinity to integer'')
      | Some v \<Rightarrow> Inr (if 0 \<le> v then \<lfloor>v\<rfloor> else \<lceil>v\<rceil>))"

text \<open>The expression \<^verbatim>\<open>int(downloaded / total * 100)\<close> of \<^verbatim>\<open>progress_hook\<close>.\<close>

definition int_percent :: "int \<Rightarrow> int \<Rightarrow> pystr + int" where
  "int_percent downloaded tot =
     (case true_div downloaded tot of
        Inl e \<Rightarrow> Inl e
      | Inr x \<Rightarrow> py_int (float_mul x 100))"

section \<open>Job records, events and the application state\<close>

text \<open>
  The tuples put on \<^verbatim>\<open>event_q\<close>: \<^verbatim>\<open>('add', id, title)\<close>,
  \<^verbatim>\<open>('progress', id, percent, speed, eta)\<close>, \<^verbatim>\<open>('status', id, text)\<close> and
  \<^verbatim>\<open>('done', id, filepath)\<close>.
\<close>

datatype event =
    EvAdd int pystr
  | EvProgress int int pystr "int option"
  | EvStatus int pystr
  | EvDone int pystr

text \<open>
  The lines put on \<^verbatim>\<open>log_q\<close>, by the format string that builds them:
  \<open>MsgPreparing\<close> is the fixed line of \<^verbatim>\<open>start_download\<close>, \<open>MsgStopped dlid\<close> the line of
  \<^verbatim>\<open>_stop_download\<close>, \<open>MsgHook percent_str filename\<close> the line of the progress hook,
  \<open>MsgCompleted filepath\<close>, \<open>MsgCancelled dlid\<close> and \<open>MsgFailed msg\<close> the three lines of the
  worker. A line that went through \<^verbatim>\<open>_log\<close> carries the clock reading in front.
\<close>

datatype log_msg =
    MsgPreparing
  | MsgStopped int
  | MsgHook pystr pystr
  | MsgCompleted pystr
  | MsgCancelled int
  | MsgFailed pystr

datatype log_line = Stamped pystr log_msg | Plain log_msg

text \<open>
  The state of the \<^verbatim>\<open>threading.Thread\<close> stored in a job, that is where its call of
  \<^verbatim>\<open>_download_worker\<close> stands: \<open>Starting\<close> until \<^verbatim>\<open>get_downloads_folder()\<close> has returned,
  \<open>Running\<close> inside the \<^verbatim>\<open>try\<close> block, \<open>Ended\<close> once the \<^verbatim>\<open>done\<close> put or the
  \<^verbatim>\<open>except Exception\<close> handler has run, \<open>Aborted\<close> when an exception has left the function
  without reaching the handler.
\<close>

datatype thread_state = Starting | Running | Ended | Aborted

text \<open>
  The widgets of a row, by what the handlers write to them: the text of the title label,
  the value of the progress bar, the text of the status label and the \<^verbatim>\<open>state\<close> option
  of the two buttons. A button whose state is \<^verbatim>\<open>'disabled'\<close> does not call its command.
\<close>

datatype btn_state = Normal | Disabled

record row_widgets =
  label_text :: pystr
  pb_value :: int
  status_text :: pystr
  open_btn :: btn_state
  stop_btn :: btn_state

text \<open>
  \<^verbatim>\<open>DownloadItem\<close>. \<open>cancel_event\<close> is \<open>None\<close> or the \<^verbatim>\<open>threading.Event\<close> with its flag;
  \<open>widgets\<close> is \<open>None\<close> for the empty dictionary of a new job and holds the widgets of
  the row once \<^verbatim>\<open>_add_download_row\<close> has stored them.
\<close>

record DownloadItem =
  item_id :: int
  title :: pystr
  url :: pystr
  status :: pystr
  progress :: int
  speed :: pystr
  eta :: "int option"
  filepath :: pystr
  cancel_event :: "bool option"
  thread :: "thread_state option"
  widgets :: "row_widgets option"

text \<open>The fields of \<^verbatim>\<open>SaverXApp\<close> that the orchestration reads and writes.\<close>

record app =
  log_q :: "log_line list"
  event_q :: "event list"
  downloads :: "int \<rightharpoonup> DownloadItem"
  download_counter :: int

definition init :: app where
  "init = \<lparr>log_q = [], event_q = [], downloads = Map.empty, download_counter = 1\<rparr>"

text \<open>
  The dictionary the fetcher passes to a progress hook, restricted to the keys the hook
  reads. Byte counts and the ETA are integers, the other values are strings. A field is
  \<open>None\<close> when the key is absent; for the keys read with \<^verbatim>\<open>d.get(key)\<close> and no default
  (the status, the two totals and the ETA) it is also \<open>None\<close> when the key holds
  \<^verbatim>\<open>None\<close>. The keys read with a default (\<^verbatim>\<open>downloaded_bytes\<close>, \<^verbatim>\<open>speed_str\<close>,
  \<^verbatim>\<open>_percent_str\<close>, \<^verbatim>\<open>filename\<close>) hold a value of their type whenever they are present.
\<close>

record hook_dict =
  d_status :: "pystr option"
  d_total_bytes :: "int option"
  d_total_bytes_estimate :: "int option"
  d_downloaded_bytes :: "int option"
  d_speed_str :: "pystr option"
  d_eta :: "int option"
  d_percent_str :: "pystr option"
  d_filename :: "pystr option"

subsection \<open>String constants of the source\<close>

definition preparing_title :: pystr where
  "preparing_title =
     [0x642, 0x64A, 0x62F, 0x20, 0x627, 0x644, 0x62A, 0x62D, 0x636, 0x64A, 0x631, 0x2E, 0x2E, 0x2E]"

definition cancelled_text :: pystr where
  "cancelled_text = [0x623, 0x64F, 0x644, 0x63A, 0x64A]"

definition error_prefix :: pystr where
  "error_prefix = [0x62E, 0x637, 0x623, 0x3A, 0x20]"

definition required_title :: pystr where
  "required_title = [0x645, 0x637, 0x644, 0x648, 0x628]"

definition required_message :: pystr where
  "required_message =
     [0x627, 0x644, 0x631, 0x62C, 0x627, 0x621, 0x20, 0x625, 0x62F, 0x62E, 0x627, 0x644, 0x20,
      0x631, 0x627, 0x628, 0x637, 0x20, 0x641, 0x64A, 0x62F, 0x64A, 0x648, 0x20, 0x635, 0x627,
      0x644, 0x62D]"

text \<open>
  The texts written to the status label: by \<^verbatim>\<open>_add_download_row\<close>, \<^verbatim>\<open>_stop_download\<close>
  and \<^verbatim>\<open>_set_download_done\<close>; the two words besides the cancellation text that
  \<^verbatim>\<open>_set_download_status\<close> looks for; and the separator of the progress line.
\<close>

definition waiting_text :: pystr where
  "waiting_text = [0x642, 0x64A, 0x62F, 0x20, 0x627, 0x644, 0x627, 0x646, 0x62A, 0x638, 0x627, 0x631]"

definition stopped_text :: pystr where
  "stopped_text =
     [0x62A, 0x645, 0x20, 0x625, 0x64A, 0x642, 0x627, 0x641, 0x20, 0x627, 0x644, 0x62A, 0x62D,
      0x645, 0x64A, 0x644]"

definition complete_text :: pystr where
  "complete_text = [0x645, 0x643, 0x62A, 0x645, 0x644]"

definition error_word :: pystr where
  "error_word = [0x62E, 0x637, 0x623]"

definition failed_word :: pystr where
  "failed_word = [0x641, 0x634, 0x644]"

definition bullet :: pystr where
  "bullet = [0x20, 0x20, 0x2022, 0x20, 0x20]"

text \<open>\<^verbatim>\<open>str(n)\<close> on an integer, which is what an f-string inserts for it.\<close>

fun digits :: "nat \<Rightarrow> pystr" where
  "digits n = (if n < 10 then [48 + n] else digits (n div 10) @ [48 + n mod 10])"

declare digits.simps [simp del]

definition str_int :: "int \<Rightarrow> pystr" where
  "str_int i = (if i < 0 then 45 # digits (nat (- i)) else digits (nat i))"

text \<open>\<^verbatim>\<open>messagebox.showinfo(title, message)\<close>, returned to the caller of the model.\<close>

datatype dialog = ShowInfo pystr pystr

datatype py_error = KeyError

section \<open>Operations of the user-interface thread\<close>

definition app_log :: "app \<Rightarrow> pystr \<Rightarrow> log_msg \<Rightarrow> app" where
  "app_log s ts msg = s\<lparr>log_q := log_q s @ [Stamped ts msg]\<rparr>"

text \<open>
  \<^verbatim>\<open>start_download\<close>: \<open>url_var\<close> is the text of the entry, \<open>ts\<close> the clock reading used by
  \<^verbatim>\<open>_log\<close>. Starting the thread is the last assignment, \<open>thread := Some Starting\<close>.
\<close>

definition start_download :: "app \<Rightarrow> pystr \<Rightarrow> pystr \<Rightarrow> dialog option \<times> app" where
  "start_download s url_var ts =
     (let u = strip url_var
      in if u = [] then (Some (ShowInfo required_title required_message), s)
         else
           let dlid = download_counter s;
               s1 = s\<lparr>download_counter := download_counter s + 1\<rparr>;
               item = \<lparr>item_id = dlid, title = preparing_title, url = u,
                       status = ascii ''pending'', progress = 0, speed = [], eta = None,
                       filepath = [], cancel_event = Some False, thread = None,
                       widgets = None\<rparr>;
               s2 = s1\<lparr>downloads := (downloads s1)(dlid \<mapsto> item)\<rparr>;
               s3 = s2\<lparr>event_q := event_q s2 @ [EvAdd dlid (title item)]\<rparr>;
               s4 = app_log s3 ts MsgPreparing;
               s5 = s4\<lparr>downloads := (downloads s4)(dlid \<mapsto> item\<lparr>thread := Some Starting\<rparr>)\<rparr>
           in (None, s5))"

text \<open>
  \<^verbatim>\<open>_stop_download\<close>: both branches leave the job with a signalled event. The two widget
  updates sit in a \<^verbatim>\<open>try\<close> that swallows the \<^verbatim>\<open>KeyError\<close> of a job without a row.
\<close>

definition stop_download :: "app \<Rightarrow> int \<Rightarrow> pystr \<Rightarrow> app" where
  "stop_download s dlid ts =
     (case downloads s dlid of
        None \<Rightarrow> s
      | Some item \<Rightarrow>
          let item1 = (case cancel_event item of
                         Some _ \<Rightarrow> item\<lparr>cancel_event := Some True\<rparr>
                       | None \<Rightarrow> item\<lparr>cancel_event := Some True\<rparr>);
              item2 = (case widgets item1 of
                         None \<Rightarrow> item1
                       | Some w \<Rightarrow>
                           item1\<lparr>widgets := Some (w\<lparr>status_text := stopped_text,
                                                    stop_btn := Disabled\<rparr>)\<rparr>);
              s1 = s\<lparr>downloads := (downloads s)(dlid \<mapsto> item2)\<rparr>
          in app_log s1 ts (MsgStopped dlid))"

text \<open>
  The only caller of \<^verbatim>\<open>_stop_download\<close> is the stop button of the row of the job, which
  exists once \<^verbatim>\<open>_add_download_row\<close> has built the row and calls its command while its
  state is \<^verbatim>\<open>'normal'\<close>. \<open>click_stop\<close> is a click on that button.
\<close>

definition stop_enabled :: "app \<Rightarrow> int \<Rightarrow> bool" where
  "stop_enabled s dlid =
     (case downloads s dlid of
        None \<Rightarrow> False
      | Some item \<Rightarrow> (case widgets item of None \<Rightarrow> False | Some w \<Rightarrow> stop_btn w = Normal))"

definition click_stop :: "app \<Rightarrow> int \<Rightarrow> pystr \<Rightarrow> app" where
  "click_stop s dlid ts = (if stop_enabled s dlid then stop_download s dlid ts else s)"

text \<open>
  The handlers that \<^verbatim>\<open>_flush_logs\<close> calls. An exception leaves the assignments made
  before it in place, so a handler returns the exception, if any, with the state. The call
  of \<^verbatim>\<open>refresh_gallery\<close> that ends \<^verbatim>\<open>_add_download_row\<close> and \<^verbatim>\<open>_set_download_done\<close>
  lists the downloads folder in the gallery; it is taken to return, and it touches neither
  the queues nor the registry.
\<close>

text \<open>
  The row as \<^verbatim>\<open>_add_download_row\<close> builds it: the title in the label, the bar at its
  initial value, the waiting text, the open button disabled, the stop button as created.
\<close>

definition new_row :: "pystr \<Rightarrow> row_widgets" where
  "new_row ttl =
     \<lparr>label_text = ttl, pb_value = 0, status_text = waiting_text, open_btn = Disabled,
      stop_btn = Normal\<rparr>"

definition add_download_row :: "app \<Rightarrow> int \<Rightarrow> pystr \<Rightarrow> py_error option \<times> app" where
  "add_download_row s dlid ttl =
     (case downloads s dlid of
        None \<Rightarrow> (Some KeyError, s)
      | Some item \<Rightarrow>
          (None, s\<lparr>downloads := (downloads s)(dlid \<mapsto>
             item\<lparr>filepath := [], status := ascii ''downloading'', progress := 0,
                  title := ttl, widgets := Some (new_row ttl)\<rparr>)\<rparr>))"

text \<open>
  The text \<^verbatim>\<open>_update_download_row\<close> writes to the status label: with the ETA when
  \<^verbatim>\<open>eta\<close> is truthy, without it otherwise.
\<close>

definition progress_label :: "int \<Rightarrow> pystr \<Rightarrow> int option \<Rightarrow> pystr" where
  "progress_label percent spd e =
     (case e of
        None \<Rightarrow> str_int percent @ [0x25] @ bullet @ spd
      | Some n \<Rightarrow>
          if n \<noteq> 0
          then str_int percent @ [0x25] @ bullet @ spd @ bullet @ ascii ''ETA: '' @ str_int n
                 @ ascii ''s''
          else str_int percent @ [0x25] @ bullet @ spd)"

definition update_download_row ::
    "app \<Rightarrow> int \<Rightarrow> int \<Rightarrow> pystr \<Rightarrow> int option \<Rightarrow> py_error option \<times> app" where
  "update_download_row s dlid percent spd e =
     (case downloads s dlid of
        None \<Rightarrow> (None, s)
      | Some item \<Rightarrow>
          let item1 = item\<lparr>progress := percent, speed := spd, eta := e\<rparr>
          in case widgets item1 of
               None \<Rightarrow> (Some KeyError, s\<lparr>downloads := (downloads s)(dlid \<mapsto> item1)\<rparr>)
             | Some w \<Rightarrow>
                 (None, s\<lparr>downloads := (downloads s)(dlid \<mapsto>
                    item1\<lparr>widgets := Some (w\<lparr>pb_value := percent,
                                             status_text := progress_label percent spd e,
                                             open_btn := Disabled\<rparr>)\<rparr>)\<rparr>))"

text \<open>
  \<^verbatim>\<open>_set_download_status\<close>: the status is stored, the label shows it, and the stop button
  is disabled when the text contains the cancellation text or one of the two error words.
  Without a row both \<^verbatim>\<open>try\<close> blocks do nothing.
\<close>

definition set_download_status :: "app \<Rightarrow> int \<Rightarrow> pystr \<Rightarrow> app" where
  "set_download_status s dlid text =
     (case downloads s dlid of
        None \<Rightarrow> s
      | Some item \<Rightarrow>
          let item1 = item\<lparr>status := text\<rparr>;
              item2 = (case widgets item1 of
                         None \<Rightarrow> item1
                       | Some w \<Rightarrow> item1\<lparr>widgets := Some (w\<lparr>status_text := text\<rparr>)\<rparr>);
              item3 = (if py_in cancelled_text text \<or> py_in error_word text
                          \<or> py_in failed_word text
                       then (case widgets item2 of
                               None \<Rightarrow> item2
                             | Some w \<Rightarrow> item2\<lparr>widgets := Some (w\<lparr>stop_btn := Disabled\<rparr>)\<rparr>)
                       else item2)
          in s\<lparr>downloads := (downloads s)(dlid \<mapsto> item3)\<rparr>)"

text \<open>
  \<^verbatim>\<open>_set_download_done\<close>: status and path are stored; the row shows the completion text
  and a full bar, the open button is enabled and the stop button disabled.
\<close>

definition set_download_done :: "app \<Rightarrow> int \<Rightarrow> pystr \<Rightarrow> app" where
  "set_download_done s dlid path =
     (case downloads s dlid of
        None \<Rightarrow> s
      | Some item \<Rightarrow>
          let item1 = item\<lparr>status := ascii ''done'', filepath := path\<rparr>;
              item2 = (case widgets item1 of
                         None \<Rightarrow> item1
                       | Some w \<Rightarrow>
                           item1\<lparr>widgets := Some (w\<lparr>status_text := complete_text,
                                                    pb_value := 100, open_btn := Normal,
                                                    stop_btn := Disabled\<rparr>)\<rparr>)
          in s\<lparr>downloads := (downloads s)(dlid \<mapsto> item2)\<rparr>)"

fun handle_event :: "app \<Rightarrow> event \<Rightarrow> py_error option \<times> app" where
  "handle_event s (EvAdd dlid ttl) = add_download_row s dlid ttl"
| "handle_event s (EvProgress dlid percent spd e) = update_download_row s dlid percent spd e"
| "handle_event s (EvStatus dlid text) = (None, set_download_status s dlid text)"
| "handle_event s (EvDone dlid path) = (None, set_download_done s dlid path)"

text \<open>
  \<^verbatim>\<open>_flush_logs\<close>: the log queue is emptied into the text widget, then the events are
  taken from the queue one by one, oldest first, each removed before its handler runs. An
  exception of a handler ends the call with the later events still queued.
\<close>

fun process_events :: "event list \<Rightarrow> app \<Rightarrow> py_error option \<times> app" where
  "process_events [] s = (None, s)"
| "process_events (ev # rest) s =
     (case handle_event (s\<lparr>event_q := rest\<rparr>) ev of
        (Some e, s') \<Rightarrow> (Some e, s')
      | (None, s') \<Rightarrow> process_events rest s')"

definition flush_logs :: "app \<Rightarrow> py_error option \<times> app" where
  "flush_logs s = process_events (event_q s) (s\<lparr>log_q := []\<rparr>)"

section \<open>The worker thread\<close>

text \<open>
  The test \<^verbatim>\<open>itm and itm.cancel_event and itm.cancel_event.is_set()\<close>, made by the hook
  and again by the exception handler.
\<close>

definition cancel_is_set :: "app \<Rightarrow> int \<Rightarrow> bool" where
  "cancel_is_set s dlid =
     (case downloads s dlid of
        None \<Rightarrow> False
      | Some itm \<Rightarrow> (case cancel_event itm of None \<Rightarrow> False | Some flag \<Rightarrow> flag))"

text \<open>
  \<^verbatim>\<open>total = d.get('total_bytes') or d.get('total_bytes_estimate')\<close>: the first value
  if it is truthy, the second otherwise.
\<close>

definition total_of :: "hook_dict \<Rightarrow> int option" where
  "total_of d =
     (case d_total_bytes d of
        Some t \<Rightarrow> if t \<noteq> 0 then Some t else d_total_bytes_estimate d
      | None \<Rightarrow> d_total_bytes_estimate d)"

text \<open>
  \<^verbatim>\<open>progress_hook\<close>, the closure of \<^verbatim>\<open>_download_worker\<close> for the job \<open>dlid\<close>. The result
  is \<open>Inl msg\<close> when the hook raises an exception with that message: an arithmetic error
  of the percent expression, or \<^verbatim>\<open>Exception('USER_CANCELLED')\<close>.
\<close>

definition progress_hook :: "app \<Rightarrow> int \<Rightarrow> hook_dict \<Rightarrow> pystr + app" where
  "progress_hook s dlid d =
     (if d_status d = Some (ascii ''downloading'') then
        let tot = total_of d;
            downloaded = (case d_downloaded_bytes d of None \<Rightarrow> 0 | Some n \<Rightarrow> n);
            spd = (case d_speed_str d of None \<Rightarrow> [] | Some v \<Rightarrow> v);
            e = d_eta d
        in case (case tot of
                   Some t \<Rightarrow> if t \<noteq> 0 then int_percent downloaded t else Inr 0
                 | None \<Rightarrow> Inr 0) of
             Inl err \<Rightarrow> Inl err
           | Inr perc \<Rightarrow>
               if cancel_is_set s dlid then Inl (ascii ''USER_CANCELLED'')
               else Inr (s\<lparr>event_q := event_q s @ [EvProgress dlid perc spd e],
                           log_q := log_q s @
                             [Plain (MsgHook
                                (case d_percent_str d of None \<Rightarrow> ascii ''?'' | Some v \<Rightarrow> v)
                                (case d_filename d of None \<Rightarrow> [] | Some v \<Rightarrow> v))]\<rparr>)
      else if d_status d = Some (ascii ''finished'') then
        Inr (s\<lparr>event_q := event_q s @ [EvStatus dlid (ascii ''finalizing'')]\<rparr>)
      else Inr s)"

text \<open>
  The end of the \<^verbatim>\<open>try\<close> block, reached when \<^verbatim>\<open>extract_info\<close> and
  \<^verbatim>\<open>prepare_filename\<close> have returned \<open>path\<close>.
\<close>

definition worker_success :: "app \<Rightarrow> int \<Rightarrow> pystr \<Rightarrow> app" where
  "worker_success s dlid path =
     s\<lparr>event_q := event_q s @ [EvDone dlid path],
       log_q := log_q s @ [Plain (MsgCompleted path)]\<rparr>"

text \<open>The \<^verbatim>\<open>except Exception as e\<close> block, with \<open>msg = str(e)\<close>.\<close>

definition worker_except :: "app \<Rightarrow> int \<Rightarrow> pystr \<Rightarrow> app" where
  "worker_except s dlid msg =
     (if py_in (ascii ''USER_CANCELLED'') msg \<or> cancel_is_set s dlid
      then s\<lparr>event_q := event_q s @ [EvStatus dlid cancelled_text],
              log_q := log_q s @ [Plain (MsgCancelled dlid)]\<rparr>
      else s\<lparr>event_q := event_q s @ [EvStatus dlid (error_prefix @ msg)],
              log_q := log_q s @ [Plain (MsgFailed msg)]\<rparr>)"

text \<open>
  What happens next in the thread of a worker. Before the \<^verbatim>\<open>try\<close> block, the call
  \<^verbatim>\<open>get_downloads_folder()\<close> returns (\<open>FolderReady\<close>) or raises (\<open>FolderFails\<close>, the
  \<^verbatim>\<open>mkdir\<close> of the folder failing); no handler encloses it, so the thread ends there.
  Inside the \<^verbatim>\<open>try\<close> block the fetcher calls the progress hook with a dictionary
  (\<open>Notification\<close>), or the calls of the block return the file path (\<open>Returns\<close>), or one
  of them raises an exception of class \<^verbatim>\<open>Exception\<close> with the given message (\<open>Raises\<close>),
  or one of them raises an exception that is not an \<^verbatim>\<open>Exception\<close>, such as
  \<^verbatim>\<open>SystemExit\<close>, \<^verbatim>\<open>KeyboardInterrupt\<close> or \<^verbatim>\<open>GeneratorExit\<close> (\<open>Escapes\<close>):
  \<^verbatim>\<open>except Exception\<close> does not catch it and the thread ends without the handler.
  An exception raised by the hook (always an \<^verbatim>\<open>Exception\<close>) leaves the fetcher as it is
  and reaches the handler of the worker. Leaving the \<^verbatim>\<open>with\<close> block raises nothing, and
  \<^verbatim>\<open>refresh_gallery\<close> in the \<^verbatim>\<open>finally\<close> clause touches neither the queues nor the
  registry.
\<close>

datatype fetch_step =
    FolderReady
  | FolderFails pystr
  | Notification hook_dict
  | Returns pystr
  | Raises pystr
  | Escapes pystr

definition worker_starting :: "app \<Rightarrow> int \<Rightarrow> bool" where
  "worker_starting s dlid =
     (case downloads s dlid of None \<Rightarrow> False | Some item \<Rightarrow> thread item = Some Starting)"

definition worker_running :: "app \<Rightarrow> int \<Rightarrow> bool" where
  "worker_running s dlid =
     (case downloads s dlid of None \<Rightarrow> False | Some item \<Rightarrow> thread item = Some Running)"

definition set_thread :: "app \<Rightarrow> int \<Rightarrow> thread_state \<Rightarrow> app" where
  "set_thread s dlid st =
     (case downloads s dlid of
        None \<Rightarrow> s
      | Some item \<Rightarrow> s\<lparr>downloads := (downloads s)(dlid \<mapsto> item\<lparr>thread := Some st\<rparr>)\<rparr>)"

definition end_worker :: "app \<Rightarrow> int \<Rightarrow> app" where
  "end_worker s dlid = set_thread s dlid Ended"

fun worker_step :: "app \<Rightarrow> int \<Rightarrow> fetch_step \<Rightarrow> app" where
  "worker_step s dlid FolderReady =
     (if worker_starting s dlid then set_thread s dlid Running else s)"
| "worker_step s dlid (FolderFails msg) =
     (if worker_starting s dlid then set_thread s dlid Aborted else s)"
| "worker_step s dlid (Notification d) =
     (if worker_running s dlid
      then (case progress_hook s dlid d of
              Inl msg \<Rightarrow> end_worker (worker_except s dlid msg) dlid
            | Inr s' \<Rightarrow> s')
      else s)"
| "worker_step s dlid (Returns path) =
     (if worker_running s dlid then end_worker (worker_success s dlid path) dlid else s)"
| "worker_step s dlid (Raises msg) =
     (if worker_running s dlid then end_worker (worker_except s dlid msg) dlid else s)"
| "worker_step s dlid (Escapes msg) =
     (if worker_running s dlid then set_thread s dlid Aborted else s)"

section \<open>Interleaved executions\<close>

text \<open>
  The user-interface thread and the workers interleave. An execution is a list of actions:
  a submission (entry text and clock reading), a click on the stop button of a job (with
  the clock reading), one call of \<^verbatim>\<open>_flush_logs\<close>, or one step of the thread of some
  job. Each action is atomic: a worker reads the shared state once per step, and the two
  queues are thread-safe. A click on an open button only reads the job and is left out.
\<close>

datatype action =
    Submit pystr pystr
  | Cancel int pystr
  | Flush
  | Fetch int fetch_step

fun step :: "app \<Rightarrow> action \<Rightarrow> app" where
  "step s (Submit url_var ts) = snd (start_download s url_var ts)"
| "step s (Cancel dlid ts) = click_stop s dlid ts"
| "step s Flush = snd (flush_logs s)"
| "step s (Fetch dlid f) = worker_step s dlid f"

definition run :: "app \<Rightarrow> action list \<Rightarrow> app" where
  "run s acts = foldl step s acts"

text \<open>
  The events an action puts on the queue, and all events put during an execution, in the
  order of the \<^verbatim>\<open>put\<close> calls. Only \<^verbatim>\<open>_flush_logs\<close> takes events off the queue.
\<close>

definition puts :: "app \<Rightarrow> action \<Rightarrow> event list" where
  "puts s a = (case a of Flush \<Rightarrow> [] | _ \<Rightarrow> drop (length (event_q s)) (event_q (step s a)))"

fun published :: "app \<Rightarrow> action list \<Rightarrow> event list" where
  "published s [] = []"
| "published s (a # acts) = puts s a @ published (step s a) acts"

text \<open>
  The events that a call of \<^verbatim>\<open>_flush_logs\<close> hands to their handlers, in the order of the
  calls: the loop of \<open>process_events\<close>, recording each event it takes. \<open>delivered\<close> collects
  them over an execution.
\<close>

fun handled :: "event list \<Rightarrow> app \<Rightarrow> event list" where
  "handled [] s = []"
| "handled (ev # rest) s =
     ev # (case handle_event (s\<lparr>event_q := rest\<rparr>) ev of
             (Some e, s') \<Rightarrow> []
           | (None, s') \<Rightarrow> handled rest s')"

definition taken :: "app \<Rightarrow> action \<Rightarrow> event list" where
  "taken s a = (case a of Flush \<Rightarrow> handled (event_q s) (s\<lparr>log_q := []\<rparr>) | _ \<Rightarrow> [])"

fun delivered :: "app \<Rightarrow> action list \<Rightarrow> event list" where
  "delivered s [] = []"
| "delivered s (a # acts) = taken s a @ delivered (step s a) acts"

section \<open>The URL guard and the submission of \<^verbatim>\<open>main.py\<close>\<close>








definition invalid_url_text :: pystr where
  "invalid_url_text =
     [0x627, 0x644, 0x631, 0x62C, 0x627, 0x621, 0x20, 0x625, 0x62F, 0x62E, 0x627, 0x644, 0x20,
      0x631, 0x627, 0x628, 0x637, 0x20, 0x641, 0x64A, 0x62F, 0x64A, 0x648, 0x20, 0x635, 0x627,
      0x644, 0x62D, 0x2E]"




text \<open>
  \<^verbatim>\<open>DownloadView.start_download\<close>. The view holds the text field, its error text, the
  inline text and the button; \<open>started\<close> lists the arguments of the threads started on
  \<^verbatim>\<open>_download_thread\<close>, which is the only code that inserts into the global list
  \<^verbatim>\<open>downloads\<close>. \<open>platform\<close> is the session value \<^verbatim>\<open>platform_name\<close>.
\<close>

record download_view =
  url_input_value :: pystr
  url_input_error_text :: "pystr option"
  inline_info_value :: pystr
  download_button_disabled :: bool
  started :: "(pystr \<times> pystr option) list"

definition view_start_download :: "download_view \<Rightarrow> pystr option \<Rightarrow> download_view" where
  "view_start_download v platform =
     (let u = strip (url_input_value v)
      in if u = []
         then v\<lparr>url_input_error_text := Some invalid_url_text, inline_info_value := []\<rparr>
         else v\<lparr>download_button_disabled := True, started := started v @ [(u, platform)]\<rparr>)"

section \<open>Notions used to state the properties\<close>

definition worker_ended :: "app \<Rightarrow> int \<Rightarrow> bool" where
  "worker_ended s dlid =
     (case downloads s dlid of None \<Rightarrow> False | Some item \<Rightarrow> thread item = Some Ended)"

definition worker_aborted :: "app \<Rightarrow> int \<Rightarrow> bool" where
  "worker_aborted s dlid =
     (case downloads s dlid of None \<Rightarrow> False | Some item \<Rightarrow> thread item = Some Aborted)"

fun event_id :: "event \<Rightarrow> int" where
  "event_id (EvAdd dlid _) = dlid"
| "event_id (EvProgress dlid _ _ _) = dlid"
| "event_id (EvStatus dlid _) = dlid"
| "event_id (EvDone dlid _) = dlid"

text \<open>
  The terminal events of a job: \<^verbatim>\<open>('done', id, filepath)\<close>, the status event with the
  cancellation text, and a status event whose text starts with the error prefix.
\<close>

fun is_terminal :: "event \<Rightarrow> bool" where
  "is_terminal (EvDone _ _) = True"
| "is_terminal (EvStatus _ text) = (text = cancelled_text \<or> prefix error_prefix text)"
| "is_terminal _ = False"

definition terminal_events :: "int \<Rightarrow> event list \<Rightarrow> event list" where
  "terminal_events dlid evs = filter (\<lambda>ev. event_id ev = dlid \<and> is_terminal ev) evs"

text \<open>The text of the status event that the exception handler puts.\<close>

definition except_status :: "app \<Rightarrow> int \<Rightarrow> pystr \<Rightarrow> pystr" where
  "except_status s dlid msg =
     (if py_in (ascii ''USER_CANCELLED'') msg \<or> cancel_is_set s dlid
      then cancelled_text else error_prefix @ msg)"

definition threads_started :: "app \<Rightarrow> bool" where
  "threads_started s =
     (\<forall>k. k \<in> dom (downloads s) \<longrightarrow>
        worker_starting s k \<or> worker_running s k \<or> worker_ended s k \<or> worker_aborted s k)"

text \<open>Dictionaries of a fetcher used in the examples.\<close>

definition downloading :: "int \<Rightarrow> int option \<Rightarrow> hook_dict" where
  "downloading n t = \<lparr>d_status = Some (ascii ''downloading''), d_total_bytes = t,
     d_total_bytes_estimate = None, d_downloaded_bytes = Some n, d_speed_str = None,
     d_eta = None, d_percent_str = None, d_filename = None\<rparr>"

definition finished :: hook_dict where
  "finished = \<lparr>d_status = Some (ascii ''finished''), d_total_bytes = None,
     d_total_bytes_estimate = None, d_downloaded_bytes = None, d_speed_str = None,
     d_eta = None, d_percent_str = None, d_filename = None\<rparr>"

text \<open>Every identifier in use is below the counter; it holds initially and is kept.\<close>

definition ids_below_counter :: "app \<Rightarrow> bool" where
  "ids_below_counter s = (\<forall>k. k \<in> dom (downloads s) \<longrightarrow> k < download_counter s)"

text \<open>A URL and a file path used in the examples.\<close>

definition example_url :: pystr where
  "example_url = ascii ''https://example.com/v1''"

definition example_path :: pystr where
  "example_path = ascii ''/tmp/x/v1.mp4''"

text \<open>
  The identifiers handed out in an execution, read off the \<^verbatim>\<open>('add', id, title)\<close> events
  in the order they were put.
\<close>

fun is_add :: "event \<Rightarrow> bool" where
  "is_add (EvAdd _ _) = True"
| "is_add _ = False"

definition assigned_ids :: "event list \<Rightarrow> int list" where
  "assigned_ids evs = map event_id (filter is_add evs)"

text \<open>
  \<open>row_view\<close> forgets the fields that the worker and the stop button write, so that two
  records with the same view differ at most in the token, the thread and the widgets.
  \<open>has_row\<close> says that the widget dictionary has the keys \<^verbatim>\<open>_update_download_row\<close> reads.
\<close>

definition row_view :: "DownloadItem \<Rightarrow> DownloadItem" where
  "row_view item = item\<lparr>cancel_event := None, thread := None, widgets := None\<rparr>"

definition has_row :: "DownloadItem \<Rightarrow> bool" where
  "has_row item = (widgets item \<noteq> None)"

definition job_events :: "int \<Rightarrow> event list \<Rightarrow> event list" where
  "job_events dlid evs = filter (\<lambda>ev. event_id ev = dlid) evs"

text \<open>
  A queue is ready for \<^verbatim>\<open>_flush_logs\<close> when every queued event belongs to a job of the
  registry and every job either has its row or has its \<^verbatim>\<open>'add'\<close> event queued before
  any other event of its own. Then no handler raises \<^verbatim>\<open>KeyError\<close>.
\<close>

definition queue_ready :: "event list \<Rightarrow> (int \<rightharpoonup> DownloadItem) \<Rightarrow> bool" where
  "queue_ready evs m =
     ((\<forall>ev \<in> set evs. event_id ev \<in> dom m)
      \<and> (\<forall>k item. m k = Some item \<longrightarrow>
            has_row item \<or> (\<exists>t. find (\<lambda>ev. event_id ev = k) evs = Some (EvAdd k t))))"

definition ready :: "app \<Rightarrow> bool" where
  "ready s = (ids_below_counter s \<and> queue_ready (event_q s) (downloads s))"

text \<open>
  What the handler of an event assigns to the job record it finds, and the state that a
  call of \<^verbatim>\<open>_flush_logs\<close> which raises nothing leaves: both queues empty, every job with
  its own queued events applied in order. \<open>settled s dlid\<close> is the job as the next such call
  will leave it.
\<close>

fun apply_event :: "event \<Rightarrow> DownloadItem \<Rightarrow> DownloadItem" where
  "apply_event (EvAdd _ ttl) item =
     item\<lparr>filepath := [], status := ascii ''downloading'', progress := 0, title := ttl,
          widgets := Some (new_row ttl)\<rparr>"
| "apply_event (EvProgress _ percent spd e) item =
     item\<lparr>progress := percent, speed := spd, eta := e,
          widgets := map_option
            (\<lambda>w. w\<lparr>pb_value := percent, status_text := progress_label percent spd e,
                   open_btn := Disabled\<rparr>) (widgets item)\<rparr>"
| "apply_event (EvStatus _ text) item =
     item\<lparr>status := text,
          widgets := map_option
            (\<lambda>w. w\<lparr>status_text := text,
                   stop_btn := (if py_in cancelled_text text \<or> py_in error_word text
                                   \<or> py_in failed_word text
                                then Disabled else stop_btn w)\<rparr>) (widgets item)\<rparr>"
| "apply_event (EvDone _ path) item =
     item\<lparr>status := ascii ''done'', filepath := path,
          widgets := map_option
            (\<lambda>w. w\<lparr>status_text := complete_text, pb_value := 100, open_btn := Normal,
                   stop_btn := Disabled\<rparr>) (widgets item)\<rparr>"

definition flushed :: "app \<Rightarrow> app" where
  "flushed s =
     s\<lparr>log_q := [], event_q := [],
       downloads := \<lambda>k. map_option (fold apply_event (job_events k (event_q s)))
                           (downloads s k)\<rparr>"

definition settled :: "app \<Rightarrow> int \<Rightarrow> DownloadItem option" where
  "settled s dlid = map_option (fold apply_event (job_events dlid (event_q s))) (downloads s dlid)"

text \<open>
  The event kinds of the specification. A status event is \<open>Cancelled\<close> when it carries the
  cancellation text, \<open>Failed\<close> when its text starts with the error prefix, and
  \<open>StatusChanged\<close> otherwise.
\<close>

datatype kind = Added | Progress | StatusChanged | Completed | Failed | Cancelled

fun kind_of :: "event \<Rightarrow> kind" where
  "kind_of (EvAdd _ _) = Added"
| "kind_of (EvProgress _ _ _ _) = Progress"
| "kind_of (EvStatus _ text) =
     (if text = cancelled_text then Cancelled
      else if prefix error_prefix text then Failed else StatusChanged)"
| "kind_of (EvDone _ _) = Completed"

definition job_kinds :: "int \<Rightarrow> event list \<Rightarrow> kind list" where
  "job_kinds dlid evs = map kind_of (job_events dlid evs)"

text \<open>
  The order the specification states, following its words: a subsequence of \<open>Added\<close>, any
  number of \<open>Progress\<close>, at most one \<open>StatusChanged\<close>, one terminal kind. The number is the
  position reached: 0 at the start, 1 after \<open>Added\<close>, 2 among the \<open>Progress\<close> events, 3 after
  \<open>StatusChanged\<close>, 4 after the terminal kind.
\<close>

fun spec_order_from :: "nat \<Rightarrow> kind list \<Rightarrow> bool" where
  "spec_order_from st [] = True"
| "spec_order_from st (Added # ks) = (st = 0 \<and> spec_order_from 1 ks)"
| "spec_order_from st (Progress # ks) = (st \<le> 2 \<and> spec_order_from 2 ks)"
| "spec_order_from st (StatusChanged # ks) = (st \<le> 2 \<and> spec_order_from 3 ks)"
| "spec_order_from st (_ # ks) = (st \<le> 3 \<and> spec_order_from 4 ks)"

text \<open>
  The order the worker keeps: \<open>Added\<close> first, then \<open>Progress\<close> and \<open>StatusChanged\<close> events in
  any number and order, then at most one terminal kind and nothing after it. The number
  is 0 before the job exists, 1 while its thread is starting or running, 2 once it has
  ended or aborted, which is what \<open>job_phase\<close> reads off a state.
\<close>

fun lifecycle_from :: "nat \<Rightarrow> kind list \<Rightarrow> bool" where
  "lifecycle_from st [] = True"
| "lifecycle_from st (Added # ks) = (st = 0 \<and> lifecycle_from 1 ks)"
| "lifecycle_from st (Progress # ks) = (st = 1 \<and> lifecycle_from 1 ks)"
| "lifecycle_from st (StatusChanged # ks) = (st = 1 \<and> lifecycle_from 1 ks)"
| "lifecycle_from st (_ # ks) = (st = 1 \<and> lifecycle_from 2 ks)"

definition job_phase :: "app \<Rightarrow> int \<Rightarrow> nat" where
  "job_phase s dlid =
     (if downloads s dlid = None then 0
      else if worker_starting s dlid \<or> worker_running s dlid then 1 else 2)"

text \<open>
  The terminal states of a job as the registry shows them: the status \<^verbatim>\<open>done\<close>, the
  cancellation text, or a text that starts with the error prefix. \<open>stop_guarded\<close> says that
  no job in such a state has a stop button that can still be clicked; it holds in every
  state an execution reaches, because the handler that stores a terminal status disables
  the button in the same call.
\<close>

definition terminal_status :: "pystr \<Rightarrow> bool" where
  "terminal_status text =
     (text = ascii ''done'' \<or> text = cancelled_text \<or> prefix error_prefix text)"

definition job_terminal :: "app \<Rightarrow> int \<Rightarrow> bool" where
  "job_terminal s dlid =
     (case downloads s dlid of None \<Rightarrow> False | Some item \<Rightarrow> terminal_status (status item))"

definition guarded_item :: "DownloadItem \<Rightarrow> bool" where
  "guarded_item item =
     (terminal_status (status item) \<longrightarrow>
        (case widgets item of None \<Rightarrow> True | Some w \<Rightarrow> stop_btn w = Disabled))"

definition no_done_status :: "event list \<Rightarrow> bool" where
  "no_done_status evs = (\<forall>k. EvStatus k (ascii ''done'') \<notin> set evs)"

definition stop_guarded :: "app \<Rightarrow> bool" where
  "stop_guarded s =
     ((\<forall>k item. downloads s k = Some item \<longrightarrow> guarded_item item)
      \<and> no_done_status (event_q s))"

text \<open>
  The status that an action notifies for a job, if it is a notification of its fetcher,
  and the fetchers that are orderly for a job: they notify \<^verbatim>\<open>downloading\<close> any number
  of times and then \<^verbatim>\<open>finished\<close> at most once, as the fetcher does for a download of one
  file. The flag says that \<^verbatim>\<open>finished\<close> has been notified.
\<close>

fun job_notice :: "int \<Rightarrow> action \<Rightarrow> pystr option" where
  "job_notice dlid (Fetch k (Notification d)) = (if k = dlid then d_status d else None)"
| "job_notice dlid _ = None"

fun orderly_from :: "bool \<Rightarrow> int \<Rightarrow> action list \<Rightarrow> bool" where
  "orderly_from fin dlid [] = True"
| "orderly_from fin dlid (a # acts) =
     (if job_notice dlid a = Some (ascii ''downloading'')
      then \<not> fin \<and> orderly_from fin dlid acts
      else if job_notice dlid a = Some (ascii ''finished'')
      then \<not> fin \<and> orderly_from True dlid acts
      else orderly_from fin dlid acts)"

text \<open>
  The position in the order of the specification that a state stands for: 0 before the job
  exists, 2 while its thread is alive and \<^verbatim>\<open>finished\<close> has not been notified, 3 once it
  has, 4 when the thread is over.
\<close>

definition order_pos :: "app \<Rightarrow> bool \<Rightarrow> int \<Rightarrow> nat" where
  "order_pos s fin dlid =
     (if downloads s dlid = None then 0
      else if worker_starting s dlid \<or> worker_running s dlid then (if fin then 3 else 2)
      else 4)"

text \<open>
  An execution in which the fetcher reports \<^verbatim>\<open>finished\<close> before a \<^verbatim>\<open>downloading\<close>
  notification, as it does when one call downloads two files in turn.
\<close>

definition out_of_order :: "action list" where
  "out_of_order =
     [Submit example_url [], Fetch 1 FolderReady, Fetch 1 (Notification finished),
      Fetch 1 (Notification (downloading 400 None)), Fetch 1 (Returns example_path), Flush]"

text \<open>
  A job that has its row and whose worker has entered the \<^verbatim>\<open>try\<close> block, and the same
  job after a click on its stop button.
\<close>

definition running_job :: "action list" where
  "running_job = [Submit example_url [], Flush, Fetch 1 FolderReady]"

definition stopped_job :: "action list" where
  "stopped_job = [Submit example_url [], Flush, Fetch 1 FolderReady, Cancel 1 []]"

text \<open>
  Two executions in which the thread of the job is over without a terminal event: the
  fetcher raises \<^verbatim>\<open>SystemExit\<close>, which \<^verbatim>\<open>except Exception\<close> does not catch; and
  \<^verbatim>\<open>get_downloads_folder()\<close> raises before the \<^verbatim>\<open>try\<close> block.
\<close>

definition fetcher_exits :: "action list" where
  "fetcher_exits =
     [Submit example_url [], Flush, Fetch 1 FolderReady, Fetch 1 (Escapes (ascii ''1'')), Flush]"

definition folder_fails :: "action list" where
  "folder_fails =
     [Submit example_url [], Flush, Fetch 1 (FolderFails (ascii ''Permission denied'')), Flush]"

text \<open>
  Executions that leave the job in each of the three terminal states: the fetcher returns
  the path; an exception reaches the handler after a click on the stop button; an
  exception reaches the handler with the token not set.
\<close>

definition done_job :: "action list" where
  "done_job =
     [Submit example_url [], Flush, Fetch 1 FolderReady, Fetch 1 (Returns example_path), Flush]"

definition cancelled_job :: "action list" where
  "cancelled_job =
     [Submit example_url [], Flush, Fetch 1 FolderReady, Cancel 1 [],
      Fetch 1 (Raises (ascii ''HTTP Error 404'')), Flush]"

definition failed_job :: "action list" where
  "failed_job =
     [Submit example_url [], Flush, Fetch 1 FolderReady,
      Fetch 1 (Raises (ascii ''HTTP Error 404'')), Flush]"

text \<open>
  The values \<^verbatim>\<open>progress_hook\<close> computes from a dictionary: \<^verbatim>\<open>downloaded\<close>, \<^verbatim>\<open>speed or ''\<close>
  and \<^verbatim>\<open>perc\<close>, which is 0 when there is no total and the percent expression otherwise.
\<close>

definition downloaded_of :: "hook_dict \<Rightarrow> int" where
  "downloaded_of d = (case d_downloaded_bytes d of None \<Rightarrow> 0 | Some n \<Rightarrow> n)"

definition speed_of :: "hook_dict \<Rightarrow> pystr" where
  "speed_of d = (case d_speed_str d of None \<Rightarrow> [] | Some v \<Rightarrow> v)"

definition percent_of :: "hook_dict \<Rightarrow> pystr + int" where
  "percent_of d =
     (case total_of d of
        Some t \<Rightarrow> if t \<noteq> 0 then int_percent (downloaded_of d) t else Inr 0
      | None \<Rightarrow> Inr 0)"

text \<open>The percents of the progress events of a job, in the order of the events.\<close>

fun progress_values :: "int \<Rightarrow> event list \<Rightarrow> int list" where
  "progress_values dlid [] = []"
| "progress_values dlid (EvProgress k p _ _ # evs) =
     (if k = dlid then p # progress_values dlid evs else progress_values dlid evs)"
| "progress_values dlid (_ # evs) = progress_values dlid evs"

text \<open>
  The \<^verbatim>\<open>downloading\<close> notifications that an execution holds for a job, and a fetcher that
  is steady on them: the total is known and always \<open>t\<close>, and the byte count is
  non-negative and never decreases.
\<close>

fun notifications :: "int \<Rightarrow> action list \<Rightarrow> hook_dict list" where
  "notifications dlid [] = []"
| "notifications dlid (Fetch k (Notification d) # acts) =
     (if k = dlid \<and> d_status d = Some (ascii ''downloading'')
      then d # notifications dlid acts else notifications dlid acts)"
| "notifications dlid (_ # acts) = notifications dlid acts"

definition steady :: "int \<Rightarrow> hook_dict list \<Rightarrow> bool" where
  "steady t ds =
     (list_all (\<lambda>d. total_of d = Some t \<and> 0 \<le> downloaded_of d) ds
      \<and> sorted (map downloaded_of ds))"

text \<open>
  Executions used in the examples: one tick with a known total; the same followed by a
  tick without a total; and scenario A of the specification (two ticks of 400 and 1000
  bytes out of 1000, then \<^verbatim>\<open>finished\<close>, then the path).
\<close>

definition known_total :: "action list" where
  "known_total =
     [Submit example_url [], Flush, Fetch 1 FolderReady,
      Fetch 1 (Notification (downloading 400 (Some 1000))), Flush]"

definition total_lost :: "action list" where
  "total_lost =
     [Submit example_url [], Flush, Fetch 1 FolderReady,
      Fetch 1 (Notification (downloading 400 (Some 1000))), Flush,
      Fetch 1 (Notification (downloading 500 None)), Flush]"

definition scenario_a :: "action list" where
  "scenario_a =
     [Submit example_url [], Flush, Fetch 1 FolderReady,
      Fetch 1 (Notification (downloading 400 (Some 1000))),
      Fetch 1 (Notification (downloading 1000 (Some 1000))),
      Fetch 1 (Notification finished), Fetch 1 (Returns example_path), Flush]"

text \<open>
  \<open>set_url s k u\<close> replaces the URL stored in job \<open>k\<close>. \<open>always_fetches\<close> is a fetcher
  for \<^verbatim>\<open>download_video_yt_dlp\<close> that returns the example path for every URL.
\<close>

definition set_url :: "app \<Rightarrow> int \<Rightarrow> pystr \<Rightarrow> app" where
  "set_url s k u =
     (case downloads s k of
        None \<Rightarrow> s
      | Some item \<Rightarrow> s\<lparr>downloads := (downloads s)(k \<mapsto> item\<lparr>url := u\<rparr>)\<rparr>)"



section \<open>Lemmas about executions\<close>

subsection \<open>Frame properties of the operations\<close>

lemma handle_event_frame:
  "handle_event s ev = (r, s') \<Longrightarrow>
     event_q s' = event_q s \<and> log_q s' = log_q s \<and> download_counter s' = download_counter s
     \<and> dom (downloads s') = dom (downloads s)
     \<and> (\<forall>k. map_option thread (downloads s' k) = map_option thread (downloads s k))
     \<and> (\<forall>k. map_option cancel_event (downloads s' k) = map_option cancel_event (downloads s k))"
  by (cases ev)
     (auto simp: add_download_row_def update_download_row_def set_download_status_def
        set_download_done_def Let_def split: option.splits if_splits)

lemma process_events_frame:
  "process_events evs s = (r, s') \<Longrightarrow>
     log_q s' = log_q s \<and> download_counter s' = download_counter s
     \<and> dom (downloads s') = dom (downloads s)
     \<and> (\<forall>k. map_option thread (downloads s' k) = map_option thread (downloads s k))
     \<and> (\<forall>k. map_option cancel_event (downloads s' k) = map_option cancel_event (downloads s k))"
proof (induction evs arbitrary: s)
  case Nil
  then show ?case by simp
next
  case (Cons ev rest)
  obtain r1 s1 where h: "handle_event (s\<lparr>event_q := rest\<rparr>) ev = (r1, s1)"
    by (cases "handle_event (s\<lparr>event_q := rest\<rparr>) ev")
  from handle_event_frame [OF h] have f1:
    "log_q s1 = log_q s" "download_counter s1 = download_counter s"
    "dom (downloads s1) = dom (downloads s)"
    "\<And>k. map_option thread (downloads s1 k) = map_option thread (downloads s k)"
    "\<And>k. map_option cancel_event (downloads s1 k) = map_option cancel_event (downloads s k)"
    by simp_all
  show ?case
  proof (cases r1)
    case None
    with Cons.prems h have "process_events rest s1 = (r, s')" by simp
    from Cons.IH [OF this] f1 show ?thesis by simp
  next
    case (Some e)
    with Cons.prems h have "s' = s1" by simp
    with f1 show ?thesis by simp
  qed
qed

lemma event_q_worker_except:
  "event_q (worker_except s dlid msg) = event_q s @ [EvStatus dlid (except_status s dlid msg)]"
  by (simp add: worker_except_def except_status_def)

lemma downloads_worker_except [simp]:
  "downloads (worker_except s dlid msg) = downloads s"
  "download_counter (worker_except s dlid msg) = download_counter s"
  by (simp_all add: worker_except_def)

lemma set_thread_simps [simp]:
  "event_q (set_thread s dlid st) = event_q s"
  "log_q (set_thread s dlid st) = log_q s"
  "download_counter (set_thread s dlid st) = download_counter s"
  "dom (downloads (set_thread s dlid st)) = dom (downloads s)"
  by (auto simp: set_thread_def split: option.splits)

lemma end_worker_simps [simp]:
  "event_q (end_worker s dlid) = event_q s"
  "log_q (end_worker s dlid) = log_q s"
  "download_counter (end_worker s dlid) = download_counter s"
  "dom (downloads (end_worker s dlid)) = dom (downloads s)"
  by (simp_all add: end_worker_def)

lemma except_status_terminal:
  "except_status s dlid msg = cancelled_text \<or> prefix error_prefix (except_status s dlid msg)"
  by (simp add: except_status_def)

lemma finalizing_not_terminal [simp]:
  "ascii ''finalizing'' \<noteq> cancelled_text"
  "\<not> prefix error_prefix (ascii ''finalizing'')"
  by (simp_all add: ascii_def cancelled_text_def error_prefix_def)

lemma progress_hook_Inr:
  "progress_hook s dlid d = Inr s' \<Longrightarrow>
     downloads s' = downloads s \<and> download_counter s' = download_counter s
     \<and> (\<exists>evs. event_q s' = event_q s @ evs \<and> (\<forall>ev \<in> set evs. event_id ev = dlid \<and> \<not> is_terminal ev))"
  by (auto simp: progress_hook_def Let_def split: if_splits sum.splits option.splits)

subsection \<open>Counting terminal events\<close>

lemma worker_ended_cong:
  "map_option thread (downloads s' dlid) = map_option thread (downloads s dlid) \<Longrightarrow>
     worker_ended s' dlid = worker_ended s dlid"
  by (auto simp: worker_ended_def split: option.splits)

lemma worker_running_cong:
  "map_option thread (downloads s' dlid) = map_option thread (downloads s dlid) \<Longrightarrow>
     worker_running s' dlid = worker_running s dlid"
  by (auto simp: worker_running_def split: option.splits)

lemma flush_frame:
  "download_counter (snd (flush_logs s)) = download_counter s"
  "dom (downloads (snd (flush_logs s))) = dom (downloads s)"
  "map_option thread (downloads (snd (flush_logs s)) k) = map_option thread (downloads s k)"
  "map_option cancel_event (downloads (snd (flush_logs s)) k) = map_option cancel_event (downloads s k)"
proof -
  obtain r s' where h: "process_events (event_q s) (s\<lparr>log_q := []\<rparr>) = (r, s')"
    by (cases "process_events (event_q s) (s\<lparr>log_q := []\<rparr>)")
  from process_events_frame [OF h]
  show "download_counter (snd (flush_logs s)) = download_counter s"
    "dom (downloads (snd (flush_logs s))) = dom (downloads s)"
    "map_option thread (downloads (snd (flush_logs s)) k) = map_option thread (downloads s k)"
    "map_option cancel_event (downloads (snd (flush_logs s)) k) = map_option cancel_event (downloads s k)"
    by (simp_all add: flush_logs_def h)
qed

lemma terminal_submit:
  assumes "ids_below_counter s"
  shows "length (terminal_events dlid (puts s (Submit u ts))) + (if worker_ended s dlid then 1 else 0)
           = (if worker_ended (step s (Submit u ts)) dlid then 1 else (0::nat))"
    and "ids_below_counter (step s (Submit u ts))"
proof -
  have fresh: "downloads s (download_counter s) = None"
    using assms by (auto simp: ids_below_counter_def)
  show "length (terminal_events dlid (puts s (Submit u ts))) + (if worker_ended s dlid then 1 else 0)
           = (if worker_ended (step s (Submit u ts)) dlid then 1 else (0::nat))"
    using fresh
    by (auto simp: puts_def start_download_def Let_def app_log_def terminal_events_def
        worker_ended_def)
  show "ids_below_counter (step s (Submit u ts))"
    using assms
    by (auto simp: ids_below_counter_def start_download_def Let_def app_log_def
        split: if_splits)
qed

lemma stop_download_frame:
  "event_q (stop_download s k ts) = event_q s"
  "download_counter (stop_download s k ts) = download_counter s"
  "dom (downloads (stop_download s k ts)) = dom (downloads s)"
  "map_option thread (downloads (stop_download s k ts) j) = map_option thread (downloads s j)"
  by (auto simp: stop_download_def Let_def app_log_def split: option.splits)

lemma click_stop_frame:
  "event_q (click_stop s k ts) = event_q s"
  "download_counter (click_stop s k ts) = download_counter s"
  "dom (downloads (click_stop s k ts)) = dom (downloads s)"
  "map_option thread (downloads (click_stop s k ts) j) = map_option thread (downloads s j)"
  by (simp_all add: click_stop_def stop_download_frame)

lemma terminal_cancel:
  assumes "ids_below_counter s"
  shows "length (terminal_events dlid (puts s (Cancel k ts))) + (if worker_ended s dlid then 1 else 0)
           = (if worker_ended (step s (Cancel k ts)) dlid then 1 else (0::nat))"
    and "ids_below_counter (step s (Cancel k ts))"
proof -
  have "worker_ended (click_stop s k ts) dlid = worker_ended s dlid"
    by (rule worker_ended_cong) (rule click_stop_frame)
  then show "length (terminal_events dlid (puts s (Cancel k ts)))
               + (if worker_ended s dlid then 1 else 0)
           = (if worker_ended (step s (Cancel k ts)) dlid then 1 else (0::nat))"
    by (simp add: puts_def terminal_events_def click_stop_frame)
  show "ids_below_counter (step s (Cancel k ts))"
    using assms by (simp add: ids_below_counter_def click_stop_frame)
qed

lemma terminal_flush:
  assumes "ids_below_counter s"
  shows "length (terminal_events dlid (puts s Flush)) + (if worker_ended s dlid then 1 else 0)
           = (if worker_ended (step s Flush) dlid then 1 else (0::nat))"
    and "ids_below_counter (step s Flush)"
proof -
  have "worker_ended (snd (flush_logs s)) dlid = worker_ended s dlid"
    by (rule worker_ended_cong) (rule flush_frame)
  then show "length (terminal_events dlid (puts s Flush)) + (if worker_ended s dlid then 1 else 0)
           = (if worker_ended (step s Flush) dlid then 1 else (0::nat))"
    by (simp add: puts_def terminal_events_def)
  show "ids_below_counter (step s Flush)"
    using assms by (simp add: ids_below_counter_def flush_frame)
qed

lemma running_not_ended: "worker_running s dlid \<Longrightarrow> \<not> worker_ended s dlid"
  by (auto simp: worker_running_def worker_ended_def split: option.splits)

lemma starting_not_ended: "worker_starting s dlid \<Longrightarrow> \<not> worker_ended s dlid"
  by (auto simp: worker_starting_def worker_ended_def split: option.splits)

lemma ended_set_thread:
  "worker_ended (set_thread s k st) dlid =
     (if k = dlid \<and> downloads s k \<noteq> None then st = Ended else worker_ended s dlid)"
  by (auto simp: worker_ended_def set_thread_def split: option.splits)

lemma ended_end_worker:
  "worker_ended (end_worker s k) dlid = (if k = dlid \<and> downloads s k \<noteq> None then True else worker_ended s dlid)"
  by (auto simp: end_worker_def ended_set_thread)

lemma running_in_dom: "worker_running s dlid \<Longrightarrow> downloads s dlid \<noteq> None"
  by (auto simp: worker_running_def split: option.splits)

lemma starting_in_dom: "worker_starting s dlid \<Longrightarrow> downloads s dlid \<noteq> None"
  by (auto simp: worker_starting_def split: option.splits)

lemma worker_ended_worker_except [simp]:
  "worker_ended (worker_except s k msg) dlid = worker_ended s dlid"
  by (simp add: worker_ended_def)

lemma worker_ended_worker_success [simp]:
  "worker_ended (worker_success s k path) dlid = worker_ended s dlid"
  by (simp add: worker_ended_def worker_success_def)

lemma event_q_worker_success:
  "event_q (worker_success s k path) = event_q s @ [EvDone k path]"
  by (simp add: worker_success_def)

lemma downloads_worker_success [simp]:
  "downloads (worker_success s k path) = downloads s"
  "download_counter (worker_success s k path) = download_counter s"
  by (simp_all add: worker_success_def)

lemma ids_below_counter_cong:
  "dom (downloads s') = dom (downloads s) \<Longrightarrow> download_counter s' = download_counter s \<Longrightarrow>
     ids_below_counter s' = ids_below_counter s"
  by (simp add: ids_below_counter_def)

lemma terminal_fetch:
  assumes "ids_below_counter s"
  shows "length (terminal_events dlid (puts s (Fetch k f))) + (if worker_ended s dlid then 1 else 0)
           = (if worker_ended (step s (Fetch k f)) dlid then 1 else (0::nat))"
    and "ids_below_counter (step s (Fetch k f))"
proof -
  show "length (terminal_events dlid (puts s (Fetch k f))) + (if worker_ended s dlid then 1 else 0)
           = (if worker_ended (step s (Fetch k f)) dlid then 1 else (0::nat))"
  proof (cases "worker_running s k")
    case False
    then show ?thesis
      by (cases f)
         (auto simp: puts_def terminal_events_def ended_set_thread
            dest: starting_not_ended starting_in_dom)
  next
    case True
    note run = True
    show ?thesis
    proof (cases f)
      case FolderReady
      then show ?thesis
        using running_not_ended [OF run]
        by (auto simp: puts_def terminal_events_def ended_set_thread
            dest: starting_not_ended starting_in_dom)
    next
      case (FolderFails msg)
      then show ?thesis
        using running_not_ended [OF run]
        by (auto simp: puts_def terminal_events_def ended_set_thread
            dest: starting_not_ended starting_in_dom)
    next
      case (Escapes msg)
      then show ?thesis
        using run running_not_ended [OF run]
        by (auto simp: puts_def terminal_events_def ended_set_thread)
    next
      case (Notification d)
      show ?thesis
      proof (cases "progress_hook s k d")
        case (Inl msg)
        then show ?thesis
          using run running_not_ended [OF run] running_in_dom [OF run] Notification
            except_status_terminal [of s k msg]
          by (auto simp: puts_def terminal_events_def event_q_worker_except ended_end_worker)
      next
        case (Inr s')
        from progress_hook_Inr [OF Inr] obtain evs where
          e: "downloads s' = downloads s" "event_q s' = event_q s @ evs"
          "\<forall>ev \<in> set evs. event_id ev = k \<and> \<not> is_terminal ev"
          by blast
        have "terminal_events dlid evs = []"
          using e(3) by (auto simp: terminal_events_def filter_empty_conv)
        moreover have "worker_ended s' dlid = worker_ended s dlid"
          using e(1) by (simp add: worker_ended_def)
        ultimately show ?thesis
          using run Notification Inr e(2) by (simp add: puts_def)
      qed
    next
      case (Returns path)
      then show ?thesis
        using run running_not_ended [OF run] running_in_dom [OF run]
        by (auto simp: puts_def terminal_events_def event_q_worker_success ended_end_worker)
    next
      case (Raises msg)
      then show ?thesis
        using run running_not_ended [OF run] running_in_dom [OF run]
          except_status_terminal [of s k msg]
        by (auto simp: puts_def terminal_events_def event_q_worker_except ended_end_worker)
    qed
  qed
  have "dom (downloads (step s (Fetch k f))) = dom (downloads s)
        \<and> download_counter (step s (Fetch k f)) = download_counter s"
  proof (cases f)
    case (Notification d)
    then show ?thesis
      by (cases "progress_hook s k d") (auto dest: progress_hook_Inr)
  next
    case (Returns path)
    then show ?thesis by (simp add: worker_success_def)
  next
    case (Raises msg)
    then show ?thesis by simp
  qed simp_all
  then show "ids_below_counter (step s (Fetch k f))"
    using assms ids_below_counter_cong by blast
qed

lemma step_terminal:
  assumes "ids_below_counter s"
  shows "length (terminal_events dlid (puts s a)) + (if worker_ended s dlid then 1 else 0)
           = (if worker_ended (step s a) dlid then 1 else (0::nat))"
    and "ids_below_counter (step s a)"
proof -
  show "length (terminal_events dlid (puts s a)) + (if worker_ended s dlid then 1 else 0)
           = (if worker_ended (step s a) dlid then 1 else (0::nat))"
  proof (cases a)
    case (Submit u ts)
    then show ?thesis using terminal_submit(1) [OF assms] by simp
  next
    case (Cancel k ts)
    then show ?thesis using terminal_cancel(1) [OF assms] by simp
  next
    case Flush
    then show ?thesis using terminal_flush(1) [OF assms] by simp
  next
    case (Fetch k f)
    then show ?thesis using terminal_fetch(1) [OF assms] by simp
  qed
  show "ids_below_counter (step s a)"
  proof (cases a)
    case (Submit u ts)
    then show ?thesis using terminal_submit(2) [OF assms] by simp
  next
    case (Cancel k ts)
    then show ?thesis using terminal_cancel(2) [OF assms] by simp
  next
    case Flush
    then show ?thesis using terminal_flush(2) [OF assms] by simp
  next
    case (Fetch k f)
    then show ?thesis using terminal_fetch(2) [OF assms] by simp
  qed
qed

lemma run_terminal:
  "ids_below_counter s \<Longrightarrow>
     length (terminal_events dlid (published s acts)) + (if worker_ended s dlid then 1 else 0)
       = (if worker_ended (run s acts) dlid then 1 else (0::nat))
     \<and> ids_below_counter (run s acts)"
proof (induction acts arbitrary: s)
  case Nil
  then show ?case by (simp add: run_def terminal_events_def)
next
  case (Cons a acts)
  from step_terminal [OF Cons.prems] have
    a: "length (terminal_events dlid (puts s a)) + (if worker_ended s dlid then 1 else 0)
           = (if worker_ended (step s a) dlid then 1 else (0::nat))"
    and b: "ids_below_counter (step s a)" by blast+
  from Cons.IH [OF b] a show ?case
    by (auto simp: run_def terminal_events_def split: if_splits)
qed

lemma started_iff:
  "worker_starting s k \<or> worker_running s k \<or> worker_ended s k \<or> worker_aborted s k
     \<longleftrightarrow> (\<exists>item. downloads s k = Some item \<and> thread item \<noteq> None)"
proof -
  have "t = Some Starting \<or> t = Some Running \<or> t = Some Ended \<or> t = Some Aborted \<longleftrightarrow> t \<noteq> None"
    for t :: "thread_state option"
    by (cases t) (auto intro: thread_state.exhaust)
  then show ?thesis
    by (cases "downloads s k")
       (simp_all add: worker_starting_def worker_running_def worker_ended_def worker_aborted_def)
qed

lemma thread_set_thread:
  "map_option thread (downloads (set_thread s k st) j)
     = (if j = k \<and> downloads s k \<noteq> None then Some (Some st) else map_option thread (downloads s j))"
  by (auto simp: set_thread_def split: option.splits)

lemma thread_kept_step:
  assumes "downloads s k = Some item" "thread item \<noteq> None"
  shows "\<exists>item'. downloads (step s a) k = Some item' \<and> thread item' \<noteq> None"
proof -
  have g: "\<exists>item'. downloads s' k = Some item' \<and> thread item' \<noteq> None"
    if "map_option thread (downloads s' k) = map_option thread (downloads s k)
        \<or> (\<exists>st. map_option thread (downloads s' k) = Some (Some st))" for s'
    using that assms by (cases "downloads s' k") auto
  show ?thesis
  proof (cases a)
    case (Submit u ts)
    then show ?thesis using assms
      by (auto simp: start_download_def Let_def app_log_def)
  next
    case (Cancel j ts)
    then show ?thesis using g [of "click_stop s j ts"] by (simp add: click_stop_frame)
  next
    case Flush
    then show ?thesis using g [of "snd (flush_logs s)"] by (simp add: flush_frame)
  next
    case (Fetch j f)
    have "map_option thread (downloads (worker_step s j f) k) = map_option thread (downloads s k)
        \<or> (\<exists>st. map_option thread (downloads (worker_step s j f) k) = Some (Some st))"
    proof (cases f)
      case (Notification d)
      show ?thesis
      proof (cases "progress_hook s j d")
        case (Inl msg)
        with Notification show ?thesis
          by (auto simp: end_worker_def set_thread_def split: option.splits)
      next
        case (Inr s')
        with Notification progress_hook_Inr [OF Inr] show ?thesis by simp
      qed
    qed (auto simp: end_worker_def set_thread_def split: option.splits)
    from g [OF this] Fetch show ?thesis by simp
  qed
qed

lemma threads_started_step: "threads_started s \<Longrightarrow> threads_started (step s a)"
proof -
  assume a: "threads_started s"
  have "\<exists>item. downloads (step s a) k = Some item \<and> thread item \<noteq> None"
    if k: "k \<in> dom (downloads (step s a))" for k
  proof (cases "downloads s k")
    case (Some item)
    with a have "thread item \<noteq> None"
      by (auto simp: threads_started_def started_iff)
    with Some show ?thesis by (rule thread_kept_step)
  next
    case None
    show ?thesis
    proof (cases a)
      case (Submit u ts)
      with None k show ?thesis
        by (auto simp: start_download_def Let_def app_log_def split: if_splits)
    next
      case (Cancel j ts)
      with None k show ?thesis by (auto simp: click_stop_frame)
    next
      case Flush
      with None k show ?thesis by (auto simp: flush_frame)
    next
      case (Fetch j f)
      have "dom (downloads (worker_step s j f)) = dom (downloads s)"
      proof (cases f)
        case (Notification d)
        then show ?thesis
          by (cases "progress_hook s j d") (auto dest: progress_hook_Inr)
      qed simp_all
      with None k Fetch show ?thesis by auto
    qed
  qed
  then show ?thesis by (auto simp: threads_started_def started_iff)
qed

lemma threads_started_run: "threads_started s \<Longrightarrow> threads_started (run s acts)"
  by (induction acts arbitrary: s) (simp_all add: run_def threads_started_step)

lemma init_invariants: "ids_below_counter init" "threads_started init"
  by (simp_all add: init_def ids_below_counter_def threads_started_def)

lemma puts_thread_steps:
  "puts s (Fetch dlid FolderReady) = []"
  "puts s (Fetch dlid (FolderFails msg)) = []"
  "puts s (Fetch dlid (Escapes msg)) = []"
  by (simp_all add: puts_def)

lemma aborted_set_thread:
  "worker_aborted (set_thread s k st) dlid =
     (if k = dlid \<and> downloads s k \<noteq> None then st = Aborted else worker_aborted s dlid)"
  by (auto simp: worker_aborted_def set_thread_def split: option.splits)

lemma running_set_thread:
  "worker_running (set_thread s k st) dlid =
     (if k = dlid \<and> downloads s k \<noteq> None then st = Running else worker_running s dlid)"
  by (auto simp: worker_running_def set_thread_def split: option.splits)

lemma starting_set_thread:
  "worker_starting (set_thread s k st) dlid =
     (if k = dlid \<and> downloads s k \<noteq> None then st = Starting else worker_starting s dlid)"
  by (auto simp: worker_starting_def set_thread_def split: option.splits)

lemma after_thread_steps:
  "worker_starting s dlid \<Longrightarrow> worker_running (step s (Fetch dlid FolderReady)) dlid"
  "worker_starting s dlid \<Longrightarrow> worker_aborted (step s (Fetch dlid (FolderFails msg))) dlid"
  "worker_running s dlid \<Longrightarrow> worker_aborted (step s (Fetch dlid (Escapes msg))) dlid"
  by (auto simp: running_set_thread aborted_set_thread dest: running_in_dom starting_in_dom)

lemma puts_returns:
  "worker_running s dlid \<Longrightarrow> puts s (Fetch dlid (Returns path)) = [EvDone dlid path]"
  by (simp add: puts_def event_q_worker_success)

lemma puts_raises:
  "worker_running s dlid \<Longrightarrow>
     puts s (Fetch dlid (Raises msg)) = [EvStatus dlid (except_status s dlid msg)]"
  by (simp add: puts_def event_q_worker_except)

lemma puts_hook_raises:
  "worker_running s dlid \<Longrightarrow> progress_hook s dlid d = Inl msg \<Longrightarrow>
     puts s (Fetch dlid (Notification d)) = [EvStatus dlid (except_status s dlid msg)]"
  by (simp add: puts_def event_q_worker_except)

lemma ended_after_end:
  "worker_running s dlid \<Longrightarrow> worker_ended (step s (Fetch dlid (Returns path))) dlid"
  "worker_running s dlid \<Longrightarrow> worker_ended (step s (Fetch dlid (Raises msg))) dlid"
  "worker_running s dlid \<Longrightarrow> progress_hook s dlid d = Inl msg \<Longrightarrow>
     worker_ended (step s (Fetch dlid (Notification d))) dlid"
  by (auto simp: ended_end_worker dest: running_in_dom)

subsection \<open>The cancellation flag stays set\<close>

lemma cancel_is_set_cong:
  "map_option cancel_event (downloads s' dlid) = map_option cancel_event (downloads s dlid) \<Longrightarrow>
     cancel_is_set s' dlid = cancel_is_set s dlid"
  by (auto simp: cancel_is_set_def split: option.splits)

lemma downloads_end_worker:
  "map_option cancel_event (downloads (end_worker s k) dlid)
     = map_option cancel_event (downloads s dlid)"
  by (auto simp: end_worker_def set_thread_def split: option.splits)

lemma downloads_set_thread:
  "map_option cancel_event (downloads (set_thread s k st) dlid)
     = map_option cancel_event (downloads s dlid)"
  by (auto simp: set_thread_def split: option.splits)

lemma worker_step_cancel_event:
  "map_option cancel_event (downloads (worker_step s k f) dlid)
     = map_option cancel_event (downloads s dlid)"
proof (cases f)
  case (Notification d)
  then show ?thesis
    by (cases "progress_hook s k d")
       (auto simp: downloads_end_worker dest: progress_hook_Inr)
next
  case (Returns path)
  then show ?thesis by (simp add: downloads_end_worker)
next
  case (Raises msg)
  then show ?thesis by (simp add: downloads_end_worker)
qed (simp_all add: downloads_set_thread)

lemma cancel_is_set_step:
  assumes "ids_below_counter s" and "cancel_is_set s dlid"
  shows "cancel_is_set (step s a) dlid"
proof (cases a)
  case (Submit u ts)
  from assms have "dlid \<noteq> download_counter s"
    by (auto simp: ids_below_counter_def cancel_is_set_def split: option.splits)
  with assms(2) Submit show ?thesis
    by (auto simp: start_download_def Let_def app_log_def cancel_is_set_def)
next
  case (Cancel k ts)
  with assms(2) show ?thesis
    by (auto simp: click_stop_def stop_download_def Let_def app_log_def cancel_is_set_def
        split: option.splits)
next
  case Flush
  have "cancel_is_set (snd (flush_logs s)) dlid = cancel_is_set s dlid"
    by (rule cancel_is_set_cong) (rule flush_frame)
  with assms(2) Flush show ?thesis by simp
next
  case (Fetch k f)
  have "cancel_is_set (worker_step s k f) dlid = cancel_is_set s dlid"
    by (rule cancel_is_set_cong) (rule worker_step_cancel_event)
  with assms(2) Fetch show ?thesis by simp
qed

lemma cancel_is_set_run:
  "ids_below_counter s \<Longrightarrow> cancel_is_set s dlid \<Longrightarrow> cancel_is_set (run s acts) dlid"
proof (induction acts arbitrary: s)
  case Nil
  then show ?case by (simp add: run_def)
next
  case (Cons a acts)
  from Cons.prems have "ids_below_counter (step s a)" "cancel_is_set (step s a) dlid"
    by (simp_all add: step_terminal(2) cancel_is_set_step)
  from Cons.IH [OF this] show ?case by (simp add: run_def)
qed

lemma cancel_sets_flag:
  "stop_enabled s dlid \<Longrightarrow> cancel_is_set (step s (Cancel dlid ts)) dlid"
  by (auto simp: click_stop_def stop_enabled_def stop_download_def Let_def app_log_def
      cancel_is_set_def split: option.splits)

lemma error_text_not_cancelled: "error_prefix @ msg \<noteq> cancelled_text"
  by (simp add: error_prefix_def cancelled_text_def)

subsection \<open>Example executions\<close>

lemma strip_example_url: "strip example_url = example_url" "example_url \<noteq> []"
  by (simp_all add: example_url_def strip_def ascii_def py_isspace_def)

lemma done_state:
  "run init done_job =
     \<lparr>log_q = [], event_q = [],
      downloads = [1 \<mapsto> \<lparr>item_id = 1, title = preparing_title, url = example_url,
         status = ascii ''done'', progress = 0, speed = [], eta = None,
         filepath = example_path, cancel_event = Some False, thread = Some Ended,
         widgets = Some \<lparr>label_text = preparing_title, pb_value = 100,
                          status_text = complete_text, open_btn = Normal,
                          stop_btn = Disabled\<rparr>\<rparr>],
      download_counter = 2\<rparr>"
  by (simp add: done_job_def run_def init_def start_download_def app_log_def Let_def
      strip_example_url flush_logs_def add_download_row_def set_download_done_def
      worker_running_def worker_starting_def worker_success_def end_worker_def set_thread_def
      new_row_def)

subsection \<open>Identifiers\<close>

lemma puts_submit:
  "puts s (Submit u ts) = (if strip u = [] then [] else [EvAdd (download_counter s) preparing_title])"
  by (simp add: puts_def start_download_def Let_def app_log_def)

lemma assigned_ids_puts:
  "assigned_ids (puts s a) =
     (case a of Submit u ts \<Rightarrow> if strip u = [] then [] else [download_counter s] | _ \<Rightarrow> [])"
proof (cases a)
  case (Submit u ts)
  then show ?thesis by (simp add: puts_submit assigned_ids_def)
next
  case (Cancel k ts)
  then show ?thesis by (simp add: puts_def assigned_ids_def click_stop_frame)
next
  case Flush
  then show ?thesis by (simp add: puts_def assigned_ids_def)
next
  case (Fetch k f)
  show ?thesis
  proof (cases "worker_running s k")
    case False
    then show ?thesis using Fetch by (cases f) (simp_all add: puts_def assigned_ids_def)
  next
    case True
    show ?thesis
    proof (cases f)
      case FolderReady
      then show ?thesis using Fetch by (simp add: puts_thread_steps assigned_ids_def)
    next
      case (FolderFails msg)
      then show ?thesis using Fetch by (simp add: puts_thread_steps assigned_ids_def)
    next
      case (Escapes msg)
      then show ?thesis using Fetch by (simp add: puts_thread_steps assigned_ids_def)
    next
      case (Notification d)
      show ?thesis
      proof (cases "progress_hook s k d")
        case (Inl msg)
        then show ?thesis using True Fetch Notification
          by (simp add: puts_hook_raises assigned_ids_def)
      next
        case (Inr s')
        then show ?thesis using True Fetch Notification
          by (auto simp: puts_def assigned_ids_def progress_hook_def Let_def
              split: if_splits sum.splits option.splits)
      qed
    next
      case (Returns path)
      then show ?thesis using True Fetch by (simp add: puts_returns assigned_ids_def)
    next
      case (Raises msg)
      then show ?thesis using True Fetch by (simp add: puts_raises assigned_ids_def)
    qed
  qed
qed

lemma counter_step:
  "download_counter (step s a) =
     (case a of Submit u ts \<Rightarrow> if strip u = [] then download_counter s else download_counter s + 1
      | _ \<Rightarrow> download_counter s)"
proof (cases a)
  case (Submit u ts)
  then show ?thesis by (simp add: start_download_def Let_def app_log_def)
next
  case (Cancel k ts)
  then show ?thesis by (simp add: click_stop_frame)
next
  case Flush
  then show ?thesis by (simp add: flush_frame)
next
  case (Fetch k f)
  then show ?thesis
  proof (cases f)
    case (Notification d)
    then show ?thesis using Fetch
      by (cases "progress_hook s k d") (auto dest: progress_hook_Inr)
  qed simp_all
qed

lemma assigned_ids_append [simp]:
  "assigned_ids (xs @ ys) = assigned_ids xs @ assigned_ids ys"
  by (simp add: assigned_ids_def)

lemma assigned_ids_run:
  "sorted_wrt (<) (assigned_ids (published s acts))
   \<and> (\<forall>k \<in> set (assigned_ids (published s acts)).
         download_counter s \<le> k \<and> k < download_counter (run s acts))
   \<and> download_counter s \<le> download_counter (run s acts)"
proof (induction acts arbitrary: s)
  case Nil
  then show ?case by (simp add: run_def assigned_ids_def)
next
  case (Cons a acts)
  have r: "run s (a # acts) = run (step s a) acts" by (simp add: run_def)
  note ih = Cons.IH [of "step s a"]
  show ?case
  proof (cases "\<exists>u ts. a = Submit u ts \<and> strip u \<noteq> []")
    case True
    then obtain u ts where a: "a = Submit u ts" "strip u \<noteq> []" by blast
    have p: "assigned_ids (puts s a) = [download_counter s]"
      and c: "download_counter (step s a) = download_counter s + 1"
      using a by (simp_all add: assigned_ids_puts counter_step del: step.simps)
    from ih p c show ?thesis
      unfolding r by (fastforce simp: sorted_wrt_append simp del: step.simps)
  next
    case False
    have p: "assigned_ids (puts s a) = []"
      and c: "download_counter (step s a) = download_counter s"
      using False by (auto simp: assigned_ids_puts counter_step split: action.splits simp del: step.simps)
    from ih p c show ?thesis
      unfolding r by (simp del: step.simps)
  qed
qed

lemma dom_step: "dom (downloads s) \<subseteq> dom (downloads (step s x))"
proof (cases x)
  case (Submit u t)
  then show ?thesis by (auto simp: start_download_def Let_def app_log_def)
next
  case (Cancel k t)
  then show ?thesis by (simp add: click_stop_frame)
next
  case Flush
  then show ?thesis by (simp add: flush_frame)
next
  case (Fetch k f)
  then show ?thesis
  proof (cases f)
    case (Notification d)
    then show ?thesis using Fetch
      by (cases "progress_hook s k d") (auto dest: progress_hook_Inr)
  qed auto
qed

lemma dom_run: "dom (downloads s) \<subseteq> dom (downloads (run s acts))"
proof (induction acts arbitrary: s)
  case Nil
  then show ?case by (simp add: run_def)
next
  case (Cons x xs)
  from dom_step [of s x] Cons.IH [of "step s x"] show ?case
    by (auto simp: run_def simp del: step.simps)
qed

subsection \<open>What an action puts on the queue\<close>

lemma event_q_step:
  "a \<noteq> Flush \<Longrightarrow> event_q (step s a) = event_q s @ puts s a"
proof (cases a)
  case (Submit u ts)
  then show ?thesis by (simp add: puts_def start_download_def Let_def app_log_def)
next
  case (Cancel k ts)
  then show ?thesis by (simp add: puts_def click_stop_frame)
next
  case (Fetch k f)
  show ?thesis
  proof (cases "worker_running s k")
    case False
    then show ?thesis using Fetch by (cases f) (simp_all add: puts_def)
  next
    case True
    show ?thesis
    proof (cases f)
      case (Notification d)
      then show ?thesis using True Fetch
        by (cases "progress_hook s k d")
           (auto simp: puts_def event_q_worker_except dest: progress_hook_Inr)
    next
      case (Returns path)
      then show ?thesis using True Fetch by (simp add: puts_def event_q_worker_success)
    next
      case (Raises msg)
      then show ?thesis using True Fetch by (simp add: puts_def event_q_worker_except)
    qed (simp_all add: Fetch puts_def)
  qed
qed simp

lemma puts_fetch:
  "ev \<in> set (puts s (Fetch k f)) \<Longrightarrow> event_id ev = k \<and> worker_running s k \<and> \<not> is_add ev"
proof (cases "worker_running s k")
  case False
  assume "ev \<in> set (puts s (Fetch k f))"
  with False show ?thesis by (cases f) (simp_all add: puts_def)
next
  case True
  assume e: "ev \<in> set (puts s (Fetch k f))"
  show ?thesis
  proof (cases f)
    case (Notification d)
    show ?thesis
    proof (cases "progress_hook s k d")
      case (Inl msg)
      with e True Notification show ?thesis by (simp add: puts_hook_raises)
    next
      case (Inr s')
      with e True Notification show ?thesis
        by (auto simp: puts_def progress_hook_def Let_def
            split: if_splits sum.splits option.splits)
    qed
  next
    case (Returns path)
    with e True show ?thesis by (simp add: puts_returns)
  next
    case (Raises msg)
    with e True show ?thesis by (simp add: puts_raises)
  next
    case FolderReady
    with e show ?thesis by (simp add: puts_thread_steps)
  next
    case (FolderFails msg)
    with e show ?thesis by (simp add: puts_thread_steps)
  next
    case (Escapes msg)
    with e show ?thesis by (simp add: puts_thread_steps)
  qed
qed

lemma puts_cancel [simp]: "puts s (Cancel k ts) = []"
  by (simp add: puts_def click_stop_frame)

lemma puts_flush [simp]: "puts s Flush = []"
  by (simp add: puts_def)

lemma row_view_set_thread:
  "map_option row_view (downloads (set_thread s k st) j) = map_option row_view (downloads s j)"
  by (auto simp: set_thread_def row_view_def split: option.splits)

lemma row_view_end_worker:
  "map_option row_view (downloads (end_worker s k) j) = map_option row_view (downloads s j)"
  by (simp add: end_worker_def row_view_set_thread)

lemma row_view_worker_step:
  "map_option row_view (downloads (worker_step s k f) j) = map_option row_view (downloads s j)"
proof (cases f)
  case (Notification d)
  then show ?thesis
    by (cases "progress_hook s k d") (auto simp: row_view_end_worker dest: progress_hook_Inr)
next
  case (Returns path)
  then show ?thesis by (simp add: row_view_end_worker)
next
  case (Raises msg)
  then show ?thesis by (simp add: row_view_end_worker)
qed (simp_all add: row_view_set_thread)

lemma row_view_step:
  assumes "a \<noteq> Flush" and "j \<noteq> download_counter s"
  shows "map_option row_view (downloads (step s a) j) = map_option row_view (downloads s j)"
proof (cases a)
  case (Submit u ts)
  with assms(2) show ?thesis by (simp add: start_download_def Let_def app_log_def)
next
  case (Cancel k ts)
  then show ?thesis
    by (auto simp: click_stop_def stop_download_def Let_def app_log_def row_view_def
        split: option.splits)
next
  case Flush
  with assms(1) show ?thesis by simp
next
  case (Fetch k f)
  then show ?thesis by (simp add: row_view_worker_step)
qed

subsection \<open>Flushing a ready queue\<close>

lemma has_row_apply_event: "has_row item \<Longrightarrow> has_row (apply_event ev item)"
  by (cases ev) (simp_all add: has_row_def)

lemma has_row_add: "has_row (apply_event (EvAdd k t) item)"
  by (simp add: has_row_def)

lemma handle_event_applies:
  assumes "downloads s (event_id ev) = Some item"
    and "has_row item \<or> is_add ev"
  shows "handle_event s ev =
           (None, s\<lparr>downloads := (downloads s)(event_id ev \<mapsto> apply_event ev item)\<rparr>)"
  using assms
  by (cases ev)
     (auto simp: add_download_row_def update_download_row_def set_download_status_def
        set_download_done_def has_row_def Let_def)

lemma queue_ready_first:
  assumes "queue_ready (ev # rest) m" and "m (event_id ev) = Some item"
  shows "has_row item \<or> (\<exists>t. ev = EvAdd (event_id ev) t)"
proof -
  from assms(1) have
    "\<forall>k it. m k = Some it \<longrightarrow>
       has_row it \<or> (\<exists>t. find (\<lambda>e. event_id e = k) (ev # rest) = Some (EvAdd k t))"
    unfolding queue_ready_def by blast
  with assms(2) have
    "has_row item
     \<or> (\<exists>t. find (\<lambda>e. event_id e = event_id ev) (ev # rest) = Some (EvAdd (event_id ev) t))"
    by blast
  then show ?thesis by simp
qed

lemma queue_ready_head:
  assumes "queue_ready (ev # rest) m"
  shows "\<exists>item. m (event_id ev) = Some item \<and> (has_row item \<or> is_add ev)"
proof -
  from assms obtain item where i: "m (event_id ev) = Some item"
    by (auto simp: queue_ready_def)
  from queue_ready_first [OF assms i] have "has_row item \<or> is_add ev"
    by (metis is_add.simps(1))
  with i show ?thesis by auto
qed

lemma queue_ready_other:
  assumes "queue_ready (ev # rest) m" and "m k = Some it" and "k \<noteq> event_id ev"
  shows "has_row it \<or> (\<exists>t. find (\<lambda>e. event_id e = k) rest = Some (EvAdd k t))"
proof -
  from assms(1) have
    "\<forall>k it. m k = Some it \<longrightarrow>
       has_row it \<or> (\<exists>t. find (\<lambda>e. event_id e = k) (ev # rest) = Some (EvAdd k t))"
    unfolding queue_ready_def by blast
  with assms(2) have
    "has_row it \<or> (\<exists>t. find (\<lambda>e. event_id e = k) (ev # rest) = Some (EvAdd k t))"
    by blast
  with assms(3) show ?thesis by simp
qed

lemma queue_ready_tail:
  assumes "queue_ready (ev # rest) m" and "m (event_id ev) = Some item"
  shows "queue_ready rest (m(event_id ev \<mapsto> apply_event ev item))"
  unfolding queue_ready_def
proof (intro conjI ballI allI impI)
  fix e assume "e \<in> set rest"
  with assms(1) show "event_id e \<in> dom (m(event_id ev \<mapsto> apply_event ev item))"
    by (auto simp: queue_ready_def)
next
  fix k it assume h: "(m(event_id ev \<mapsto> apply_event ev item)) k = Some it"
  show "has_row it \<or> (\<exists>t. find (\<lambda>e. event_id e = k) rest = Some (EvAdd k t))"
  proof (cases "k = event_id ev")
    case True
    with h have it: "it = apply_event ev item" by simp
    from queue_ready_first [OF assms] have "has_row item \<or> (\<exists>t. ev = EvAdd (event_id ev) t)" .
    then show ?thesis
      using it has_row_apply_event has_row_add by metis
  next
    case False
    with h have "m k = Some it" by simp
    from queue_ready_other [OF assms(1) this False] show ?thesis .
  qed
qed

lemma process_events_applies:
  "event_q s = evs \<Longrightarrow> queue_ready evs (downloads s) \<Longrightarrow>
     process_events evs s =
       (None, s\<lparr>event_q := [],
                downloads := \<lambda>k. map_option (fold apply_event (job_events k evs))
                                    (downloads s k)\<rparr>)"
proof (induction evs arbitrary: s)
  case Nil
  have "(\<lambda>k. map_option (fold apply_event (job_events k [])) (downloads s k)) = downloads s"
    by (simp add: job_events_def fun_eq_iff option.map_id)
  with Nil show ?case by simp
next
  case (Cons ev rest)
  from queue_ready_head [OF Cons.prems(2)] obtain item where
    i: "downloads s (event_id ev) = Some item" "has_row item \<or> is_add ev" by blast
  let ?s1 = "s\<lparr>event_q := rest,
               downloads := (downloads s)(event_id ev \<mapsto> apply_event ev item)\<rparr>"
  have h: "handle_event (s\<lparr>event_q := rest\<rparr>) ev = (None, ?s1)"
    using handle_event_applies [of "s\<lparr>event_q := rest\<rparr>" ev item] i by simp
  have r: "queue_ready rest (downloads ?s1)"
    using queue_ready_tail [OF Cons.prems(2) i(1)] by simp
  have e: "event_q ?s1 = rest" by simp
  have m: "(\<lambda>k. map_option (fold apply_event (job_events k rest)) (downloads ?s1 k))
         = (\<lambda>k. map_option (fold apply_event (job_events k (ev # rest))) (downloads s k))"
    using i(1) by (auto simp: fun_eq_iff job_events_def)
  from Cons.IH [OF e r] h m show ?case by simp
qed

lemma flush_logs_applies:
  "queue_ready (event_q s) (downloads s) \<Longrightarrow> flush_logs s = (None, flushed s)"
  using process_events_applies [of "s\<lparr>log_q := []\<rparr>" "event_q s"]
  by (simp add: flush_logs_def flushed_def)

subsection \<open>Executions keep the queue ready\<close>

lemma find_append_Some:
  "find P xs = Some x \<Longrightarrow> find P (xs @ ys) = Some x"
  by (induction xs) (auto split: if_splits)

lemma find_append_None:
  "\<forall>x \<in> set xs. \<not> P x \<Longrightarrow> find P (xs @ ys) = find P ys"
  by (induction xs) auto

lemma queue_ready_append:
  assumes "queue_ready q m" and "dom m' = dom m"
    and "\<And>j. map_option has_row (m' j) = map_option has_row (m j)"
    and "\<And>ev. ev \<in> set new \<Longrightarrow> event_id ev \<in> dom m"
  shows "queue_ready (q @ new) m'"
  unfolding queue_ready_def
proof (intro conjI ballI allI impI)
  fix ev assume "ev \<in> set (q @ new)"
  then have "ev \<in> set q \<or> ev \<in> set new" by simp
  then have "event_id ev \<in> dom m"
  proof
    assume "ev \<in> set q"
    with assms(1) show ?thesis unfolding queue_ready_def by blast
  next
    assume "ev \<in> set new"
    then show ?thesis by (rule assms(4))
  qed
  with assms(2) show "event_id ev \<in> dom m'" by simp
next
  fix k it' assume h: "m' k = Some it'"
  with assms(3) [of k] obtain it where i: "m k = Some it" "has_row it' = has_row it"
    by (cases "m k") auto
  from i(2) have r: "has_row it' = has_row it" .
  from assms(1) i(1) have "has_row it \<or> (\<exists>t. find (\<lambda>e. event_id e = k) q = Some (EvAdd k t))"
    unfolding queue_ready_def by blast
  with r show "has_row it' \<or> (\<exists>t. find (\<lambda>e. event_id e = k) (q @ new) = Some (EvAdd k t))"
    by (auto simp: find_append_Some)
qed

lemma queue_ready_submit:
  assumes "queue_ready q m" and "c \<notin> dom m"
  shows "queue_ready (q @ [EvAdd c t]) (m(c \<mapsto> item))"
  unfolding queue_ready_def
proof (intro conjI ballI allI impI)
  fix ev assume "ev \<in> set (q @ [EvAdd c t])"
  with assms(1) show "event_id ev \<in> dom (m(c \<mapsto> item))"
    by (auto simp: queue_ready_def)
next
  fix k it assume h: "(m(c \<mapsto> item)) k = Some it"
  show "has_row it \<or> (\<exists>t'. find (\<lambda>e. event_id e = k) (q @ [EvAdd c t]) = Some (EvAdd k t'))"
  proof (cases "k = c")
    case True
    from assms have "\<forall>e \<in> set q. \<not> event_id e = c"
      by (auto simp: queue_ready_def)
    then have "find (\<lambda>e. event_id e = c) (q @ [EvAdd c t]) = Some (EvAdd c t)"
      by (simp add: find_append_None)
    with True show ?thesis by blast
  next
    case False
    with h have "m k = Some it" by simp
    with assms(1) have "has_row it \<or> (\<exists>t. find (\<lambda>e. event_id e = k) q = Some (EvAdd k t))"
      unfolding queue_ready_def by blast
    then show ?thesis by (auto simp: find_append_Some)
  qed
qed

lemma click_stop_fields:
  "map_option row_view (downloads (click_stop s k ts) j) = map_option row_view (downloads s j)"
  "map_option has_row (downloads (click_stop s k ts) j) = map_option has_row (downloads s j)"
  by (auto simp: click_stop_def stop_download_def Let_def app_log_def row_view_def has_row_def
      split: option.splits)

lemma has_row_set_thread:
  "map_option has_row (downloads (set_thread s k st) j) = map_option has_row (downloads s j)"
  by (auto simp: set_thread_def has_row_def split: option.splits)

lemma has_row_worker_step:
  "map_option has_row (downloads (worker_step s k f) j) = map_option has_row (downloads s j)"
proof (cases f)
  case (Notification d)
  then show ?thesis
    by (cases "progress_hook s k d")
       (auto simp: end_worker_def has_row_set_thread dest: progress_hook_Inr)
qed (simp_all add: end_worker_def has_row_set_thread)

lemma has_row_after_queue:
  "queue_ready evs m \<Longrightarrow> m k = Some z \<Longrightarrow>
     has_row (fold apply_event (job_events k evs) z)"
proof (induction evs arbitrary: m z)
  case Nil
  then show ?case by (simp add: queue_ready_def job_events_def)
next
  case (Cons ev rest)
  from queue_ready_head [OF Cons.prems(1)] obtain item where
    i: "m (event_id ev) = Some item" by blast
  note t = queue_ready_tail [OF Cons.prems(1) i]
  show ?case
  proof (cases "event_id ev = k")
    case True
    with i Cons.prems(2) have "item = z" by simp
    with True have "(m(event_id ev \<mapsto> apply_event ev item)) k = Some (apply_event ev z)"
      by simp
    from Cons.IH [OF t this] True show ?thesis by (simp add: job_events_def)
  next
    case False
    with Cons.prems(2) have "(m(event_id ev \<mapsto> apply_event ev item)) k = Some z" by simp
    from Cons.IH [OF t this] False show ?thesis by (simp add: job_events_def)
  qed
qed

lemma dom_worker_step: "dom (downloads (worker_step s k f)) = dom (downloads s)"
proof (cases f)
  case (Notification d)
  then show ?thesis
    by (cases "progress_hook s k d") (auto dest: progress_hook_Inr)
qed simp_all

lemma ready_step: "ready s \<Longrightarrow> ready (step s a)"
proof -
  assume r: "ready s"
  then have i: "ids_below_counter s" and q: "queue_ready (event_q s) (downloads s)"
    by (simp_all add: ready_def)
  have "queue_ready (event_q (step s a)) (downloads (step s a))"
  proof (cases a)
    case (Submit u ts)
    show ?thesis
    proof (cases "strip u = []")
      case True
      with Submit q show ?thesis by (simp add: start_download_def)
    next
      case False
      from i have "download_counter s \<notin> dom (downloads s)"
        by (auto simp: ids_below_counter_def)
      from queue_ready_submit [OF q this] False Submit show ?thesis
        by (simp add: start_download_def Let_def app_log_def)
    qed
  next
    case (Cancel k ts)
    have "queue_ready (event_q s @ []) (downloads (click_stop s k ts))"
      by (rule queue_ready_append [OF q]) (simp_all add: click_stop_fields click_stop_frame)
    with Cancel show ?thesis
      by (simp add: click_stop_frame)
  next
    case Flush
    from flush_logs_applies [OF q] Flush has_row_after_queue [OF q] show ?thesis
      by (auto simp: flushed_def queue_ready_def)
  next
    case (Fetch k f)
    have "queue_ready (event_q s @ puts s (Fetch k f)) (downloads (worker_step s k f))"
    proof (rule queue_ready_append [OF q])
      show "dom (downloads (worker_step s k f)) = dom (downloads s)"
        by (rule dom_worker_step)
      show "map_option has_row (downloads (worker_step s k f) j)
              = map_option has_row (downloads s j)" for j
        by (rule has_row_worker_step)
      show "event_id ev \<in> dom (downloads s)" if "ev \<in> set (puts s (Fetch k f))" for ev
        using puts_fetch [OF that] by (auto simp: worker_running_def split: option.splits)
    qed
    with Fetch event_q_step [of "Fetch k f" s] show ?thesis by simp
  qed
  with step_terminal(2) [OF i] show ?thesis by (simp add: ready_def)
qed

lemma ready_run: "ready s \<Longrightarrow> ready (run s acts)"
  by (induction acts arbitrary: s) (simp_all add: run_def ready_step del: step.simps)

lemma ready_init: "ready init"
  by (simp add: ready_def init_def ids_below_counter_def queue_ready_def)

lemma step_flush_ready: "ready s \<Longrightarrow> step s Flush = flushed s"
  by (simp add: ready_def flush_logs_applies)

subsection \<open>After the worker has ended\<close>

lemma row_view_apply_event:
  "row_view (apply_event ev a) = row_view (apply_event ev (row_view a))"
  by (cases ev) (simp_all add: row_view_def)

lemma row_view_idem [simp]: "row_view (row_view a) = row_view a"
  by (simp add: row_view_def)

lemma row_view_fold:
  "row_view (fold apply_event evs a) = row_view (fold apply_event evs (row_view a))"
proof (induction evs arbitrary: a)
  case Nil
  show ?case by simp
next
  case (Cons ev evs)
  have "row_view (fold apply_event (ev # evs) a)
          = row_view (fold apply_event evs (row_view (apply_event ev a)))"
    using Cons.IH [of "apply_event ev a"] by simp
  also have "\<dots> = row_view (fold apply_event evs (row_view (apply_event ev (row_view a))))"
    using row_view_apply_event [of ev a] by simp
  also have "\<dots> = row_view (fold apply_event (ev # evs) (row_view a))"
    using Cons.IH [of "apply_event ev (row_view a)"] by simp
  finally show ?case .
qed

lemma row_view_fields:
  "status (row_view a) = status a" "filepath (row_view a) = filepath a"
  "progress (row_view a) = progress a" "speed (row_view a) = speed a"
  "eta (row_view a) = eta a" "title (row_view a) = title a"
  "item_id (row_view a) = item_id a" "url (row_view a) = url a"
  by (simp_all add: row_view_def)

lemma job_events_append [simp]:
  "job_events dlid (xs @ ys) = job_events dlid xs @ job_events dlid ys"
  by (simp add: job_events_def)

lemma ended_in_dom: "worker_ended s dlid \<Longrightarrow> dlid \<in> dom (downloads s)"
  by (auto simp: worker_ended_def split: option.splits)

lemma job_events_puts_ended:
  assumes "ids_below_counter s" and "worker_ended s dlid"
  shows "job_events dlid (puts s a) = []"
proof (cases a)
  case (Submit u ts)
  from ended_in_dom [OF assms(2)] assms(1) have "dlid \<noteq> download_counter s"
    by (auto simp: ids_below_counter_def)
  with Submit show ?thesis by (simp add: puts_submit job_events_def)
next
  case (Cancel k ts)
  then show ?thesis by (simp add: job_events_def)
next
  case Flush
  then show ?thesis by (simp add: job_events_def)
next
  case (Fetch k f)
  have "event_id ev \<noteq> dlid" if "ev \<in> set (puts s (Fetch k f))" for ev
    using puts_fetch [OF that] assms(2) running_not_ended by blast
  with Fetch show ?thesis by (auto simp: job_events_def filter_empty_conv)
qed

lemma worker_ended_step:
  assumes "ids_below_counter s" and "worker_ended s dlid"
  shows "worker_ended (step s a) dlid"
proof (rule ccontr)
  assume "\<not> worker_ended (step s a) dlid"
  with step_terminal(1) [OF assms(1), of dlid a] assms(2) show False by simp
qed

lemma settled_step:
  assumes "ready s" and "worker_ended s dlid"
  shows "map_option row_view (settled (step s a) dlid) = map_option row_view (settled s dlid)"
proof (cases "a = Flush")
  case True
  from assms(1) have "step s Flush = flushed s" by (rule step_flush_ready)
  with True show ?thesis
    by (simp add: settled_def flushed_def job_events_def option.map_comp)
next
  case False
  from assms have i: "ids_below_counter s" by (simp add: ready_def)
  from ended_in_dom [OF assms(2)] i have n: "dlid \<noteq> download_counter s"
    by (auto simp: ids_below_counter_def)
  have q: "job_events dlid (event_q (step s a)) = job_events dlid (event_q s)"
    using event_q_step [OF False, of s] job_events_puts_ended [OF i assms(2), of a]
    by simp
  have r: "map_option row_view (downloads (step s a) dlid)
           = map_option row_view (downloads s dlid)"
    by (rule row_view_step [OF False n])
  have "map_option row_view (settled (step s a) dlid)
        = map_option (\<lambda>x. row_view (fold apply_event (job_events dlid (event_q s)) x))
            (map_option row_view (downloads (step s a) dlid))"
    using row_view_fold [of "job_events dlid (event_q s)"]
    by (simp add: settled_def q option.map_comp comp_def)
  also have "\<dots> = map_option row_view (settled s dlid)"
    using row_view_fold [of "job_events dlid (event_q s)"]
    by (simp add: r settled_def option.map_comp comp_def)
  finally show ?thesis .
qed

lemma after_end_run:
  assumes "ready s" and "worker_ended s dlid"
  shows "job_events dlid (published s acts) = []
         \<and> map_option row_view (settled (run s acts) dlid) = map_option row_view (settled s dlid)
         \<and> ready (run s acts)"
  using assms
proof (induction acts arbitrary: s)
  case Nil
  then show ?case by (simp add: run_def job_events_def)
next
  case (Cons a acts)
  from Cons.prems have i: "ids_below_counter s" by (simp add: ready_def)
  have r: "ready (step s a)" using Cons.prems(1) by (rule ready_step)
  have e: "worker_ended (step s a) dlid" using i Cons.prems(2) by (rule worker_ended_step)
  from Cons.IH [OF r e] settled_step [OF Cons.prems, of a]
    job_events_puts_ended [OF i Cons.prems(2), of a]
  show ?case by (simp add: run_def del: step.simps)
qed

lemma settled_flushed: "downloads (flushed s) dlid = settled s dlid"
  by (simp add: flushed_def settled_def)

lemma settled_returns:
  assumes "worker_running s dlid"
  shows "map_option status (settled (step s (Fetch dlid (Returns path))) dlid)
           = Some (ascii ''done'')"
    and "map_option filepath (settled (step s (Fetch dlid (Returns path))) dlid) = Some path"
  using assms
  by (auto simp: settled_def event_q_worker_success end_worker_def set_thread_def
      worker_running_def job_events_def split: option.splits)

lemma same_row_view:
  assumes "map_option row_view x = map_option row_view y"
  shows "map_option status x = map_option status y"
    and "map_option filepath x = map_option filepath y"
    and "map_option progress x = map_option progress y"
    and "map_option speed x = map_option speed y"
    and "map_option eta x = map_option eta y"
proof -
  have "x = None \<and> y = None \<or> (\<exists>a b. x = Some a \<and> y = Some b \<and> row_view a = row_view b)"
    using assms by (cases x; cases y) auto
  then show "map_option status x = map_option status y"
    and "map_option filepath x = map_option filepath y"
    and "map_option progress x = map_option progress y"
    and "map_option speed x = map_option speed y"
    and "map_option eta x = map_option eta y"
    by (auto, (metis row_view_fields)+)
qed

subsection \<open>The order of the events of a job\<close>

lemma job_kinds_append [simp]:
  "job_kinds dlid (xs @ ys) = job_kinds dlid xs @ job_kinds dlid ys"
  by (simp add: job_kinds_def)

lemma lifecycle_middle:
  "\<forall>k \<in> set ks. k = Progress \<or> k = StatusChanged \<Longrightarrow>
     lifecycle_from (Suc 0) (ks @ rest) = lifecycle_from (Suc 0) rest"
  by (induction ks) auto

lemma kind_of_except: 
  "kind_of (EvStatus k (except_status s k msg)) = Cancelled
   \<or> kind_of (EvStatus k (except_status s k msg)) = Failed"
  by (simp add: except_status_def)

lemma lifecycle_terminal:
  "k = Completed \<or> k = Failed \<or> k = Cancelled \<Longrightarrow>
     lifecycle_from 1 (k # rest) = lifecycle_from 2 rest"
  by auto

lemma hook_kinds:
  "progress_hook s k d = Inr s' \<Longrightarrow>
     \<forall>x \<in> set (job_kinds dlid (drop (length (event_q s)) (event_q s'))).
        x = Progress \<or> x = StatusChanged"
  by (auto simp: progress_hook_def Let_def job_kinds_def job_events_def
      split: if_splits sum.splits option.splits)

lemma worker_step_other:
  "j \<noteq> k \<Longrightarrow> downloads (worker_step s k f) j = downloads s j"
proof (cases f)
  case (Notification d)
  assume "j \<noteq> k"
  then show ?thesis using Notification
    by (cases "progress_hook s k d")
       (auto simp: end_worker_def set_thread_def dest: progress_hook_Inr split: option.splits)
next
  case (Returns path)
  assume "j \<noteq> k"
  then show ?thesis using Returns by (auto simp: end_worker_def set_thread_def split: option.splits)
next
  case (Raises msg)
  assume "j \<noteq> k"
  then show ?thesis using Raises by (auto simp: end_worker_def set_thread_def split: option.splits)
qed (auto simp: set_thread_def split: option.splits)

lemma job_phase_cong:
  "map_option thread (downloads s' dlid) = map_option thread (downloads s dlid) \<Longrightarrow>
     job_phase s' dlid = job_phase s dlid"
  by (auto simp: job_phase_def worker_running_def worker_starting_def split: option.splits)

lemma job_phase_set_thread:
  "downloads s dlid \<noteq> None \<Longrightarrow>
     job_phase (set_thread s dlid st) dlid = (if st = Starting \<or> st = Running then 1 else 2)"
  by (auto simp: job_phase_def set_thread_def worker_running_def worker_starting_def)

lemma job_phase_ended:
  "downloads s dlid \<noteq> None \<Longrightarrow> job_phase (end_worker s dlid) dlid = 2"
  by (simp add: end_worker_def job_phase_set_thread)

lemma lifecycle_two: "lifecycle_from 2 rest \<Longrightarrow> lifecycle_from (Suc 0) rest"
proof (cases rest)
  case (Cons k ks)
  assume "lifecycle_from 2 rest"
  with Cons show ?thesis by (cases k) simp_all
qed simp

lemma running_not_starting: "worker_running s dlid \<Longrightarrow> \<not> worker_starting s dlid"
  by (auto simp: worker_running_def worker_starting_def split: option.splits)

lemma lifecycle_step:
  assumes "ids_below_counter s"
    and "lifecycle_from (job_phase (step s a) dlid) rest"
  shows "lifecycle_from (job_phase s dlid) (job_kinds dlid (puts s a) @ rest)"
proof (cases a)
  case (Submit u ts)
  show ?thesis
  proof (cases "strip u = []")
    case True
    with Submit assms(2) show ?thesis
      by (simp add: puts_submit job_kinds_def job_events_def start_download_def)
  next
    case False
    from assms(1) have f: "downloads s (download_counter s) = None"
      by (auto simp: ids_below_counter_def)
    have m: "downloads (step s a) =
          (downloads s)(download_counter s \<mapsto>
             \<lparr>item_id = download_counter s, title = preparing_title, url = strip u,
              status = ascii ''pending'', progress = 0, speed = [], eta = None,
              filepath = [], cancel_event = Some False, thread = Some Starting,
              widgets = None\<rparr>)"
      using False Submit by (simp add: start_download_def Let_def app_log_def)
    show ?thesis
    proof (cases "dlid = download_counter s")
      case True
      have "job_phase s dlid = 0" using True f by (simp add: job_phase_def)
      moreover have "job_phase (step s a) dlid = 1"
        using True m by (simp add: job_phase_def worker_starting_def del: step.simps)
      ultimately show ?thesis
        using assms(2) \<open>strip u \<noteq> []\<close> Submit True
        by (simp add: puts_submit job_kinds_def job_events_def del: step.simps)
    next
      case False
      have "job_phase (step s a) dlid = job_phase s dlid"
        using False m by (intro job_phase_cong) (simp del: step.simps)
      then show ?thesis
        using assms(2) \<open>strip u \<noteq> []\<close> Submit False
        by (simp add: puts_submit job_kinds_def job_events_def del: step.simps)
    qed
  qed
next
  case (Cancel k ts)
  have "job_phase (click_stop s k ts) dlid = job_phase s dlid"
    by (rule job_phase_cong) (rule click_stop_frame)
  with Cancel assms(2) show ?thesis by (simp add: job_kinds_def job_events_def)
next
  case Flush
  have "job_phase (snd (flush_logs s)) dlid = job_phase s dlid"
    by (rule job_phase_cong) (rule flush_frame)
  with Flush assms(2) show ?thesis by (simp add: job_kinds_def job_events_def)
next
  case (Fetch k f)
  show ?thesis
  proof (cases "k = dlid \<and> worker_running s dlid")
    case False
    have e: "job_kinds dlid (puts s (Fetch k f)) = []"
    proof -
      have "event_id ev \<noteq> dlid" if "ev \<in> set (puts s (Fetch k f))" for ev
        using puts_fetch [OF that] False by blast
      then show ?thesis by (auto simp: job_kinds_def job_events_def filter_empty_conv)
    qed
    have "job_phase (worker_step s k f) dlid = job_phase s dlid
          \<or> (job_phase s dlid = 1 \<and> job_phase (worker_step s k f) dlid = 2)"
    proof (cases "k = dlid")
      case True
      with False have n: "\<not> worker_running s k" by simp
      show ?thesis
      proof (cases "worker_starting s k")
        case False
        with n have "worker_step s k f = s" by (cases f) simp_all
        then show ?thesis by simp
      next
        case st: True
        then have p: "job_phase s k = 1" and d: "downloads s k \<noteq> None"
          by (auto simp: job_phase_def worker_starting_def split: option.splits)
        show ?thesis
        proof (cases f)
          case FolderReady
          with st p d True show ?thesis by (simp add: job_phase_set_thread)
        next
          case (FolderFails msg)
          with st p d True show ?thesis by (simp add: job_phase_set_thread)
        qed (use n in simp_all)
      qed
    next
      case False
      then have "job_phase (worker_step s k f) dlid = job_phase s dlid"
        by (intro job_phase_cong) (simp add: worker_step_other)
      then show ?thesis ..
    qed
    with e Fetch assms(2) show ?thesis by (auto dest: lifecycle_two)
  next
    case True
    then have k: "k = dlid" and w: "worker_running s dlid" by simp_all
    from w have p: "job_phase s dlid = 1" and d: "downloads s dlid \<noteq> None"
      by (auto simp: job_phase_def worker_running_def split: option.splits)
    show ?thesis
    proof (cases f)
      case (Notification d')
      show ?thesis
      proof (cases "progress_hook s dlid d'")
        case (Inl msg)
        have "job_phase (step s a) dlid = 2"
          using Fetch k w Notification Inl d by (simp add: job_phase_ended)
        with assms(2) have "lifecycle_from 2 rest" by simp
        moreover have "puts s a = [EvStatus dlid (except_status s dlid msg)]"
          using Fetch k w Notification Inl by (simp add: puts_hook_raises)
        ultimately show ?thesis
          using p kind_of_except [of dlid s msg]
          by (auto simp: job_kinds_def job_events_def)
      next
        case (Inr s')
        have "downloads s' = downloads s" using progress_hook_Inr [OF Inr] by simp
        then have "job_phase s' dlid = job_phase s dlid"
          by (intro job_phase_cong) simp
        then have "job_phase (step s a) dlid = 1"
          using Fetch k w Notification Inr p by simp
        with assms(2) have "lifecycle_from 1 rest" by simp
        moreover have "puts s a = drop (length (event_q s)) (event_q s')"
          using Fetch k w Notification Inr by (simp add: puts_def)
        ultimately show ?thesis
          using p hook_kinds [OF Inr, of dlid] by (simp add: lifecycle_middle)
      qed
    next
      case (Returns path)
      have "job_phase (step s a) dlid = 2"
        using Fetch k w Returns d by (simp add: job_phase_ended)
      with assms(2) have "lifecycle_from 2 rest" by simp
      moreover have "puts s a = [EvDone dlid path]"
        using Fetch k w Returns by (simp add: puts_returns)
      ultimately show ?thesis using p by (simp add: job_kinds_def job_events_def)
    next
      case (Raises msg)
      have "job_phase (step s a) dlid = 2"
        using Fetch k w Raises d by (simp add: job_phase_ended)
      with assms(2) have "lifecycle_from 2 rest" by simp
      moreover have "puts s a = [EvStatus dlid (except_status s dlid msg)]"
        using Fetch k w Raises by (simp add: puts_raises)
      ultimately show ?thesis
        using p kind_of_except [of dlid s msg]
        by (auto simp: job_kinds_def job_events_def)
    next
      case FolderReady
      with Fetch k running_not_starting [OF w] assms(2) show ?thesis
        by (simp add: puts_thread_steps job_kinds_def job_events_def)
    next
      case (FolderFails msg)
      with Fetch k running_not_starting [OF w] assms(2) show ?thesis
        by (simp add: puts_thread_steps job_kinds_def job_events_def)
    next
      case (Escapes msg)
      have "job_phase (step s a) dlid = 2"
        using Fetch k w Escapes d by (simp add: job_phase_set_thread)
      with assms(2) have "lifecycle_from (Suc 0) rest" by (simp add: lifecycle_two)
      with Fetch Escapes p show ?thesis
        by (simp add: puts_thread_steps job_kinds_def job_events_def)
    qed
  qed
qed

lemma lifecycle_run:
  "ids_below_counter s \<Longrightarrow>
     lifecycle_from (job_phase s dlid) (job_kinds dlid (published s acts))"
proof (induction acts arbitrary: s)
  case Nil
  then show ?case by (simp add: job_kinds_def job_events_def)
next
  case (Cons a acts)
  have "ids_below_counter (step s a)" using Cons.prems by (rule step_terminal(2))
  from lifecycle_step [OF Cons.prems Cons.IH [OF this]] show ?case
    by (simp del: step.simps)
qed

lemma handled_process_events:
  "event_q s = evs \<Longrightarrow> handled evs s @ event_q (snd (process_events evs s)) = evs"
proof (induction evs arbitrary: s)
  case Nil
  then show ?case by simp
next
  case (Cons ev rest)
  obtain r1 s1 where h: "handle_event (s\<lparr>event_q := rest\<rparr>) ev = (r1, s1)"
    by (cases "handle_event (s\<lparr>event_q := rest\<rparr>) ev")
  from handle_event_frame [OF h] have e: "event_q s1 = rest" by simp
  show ?case
  proof (cases r1)
    case None
    with h Cons.IH [OF e] show ?thesis by simp
  next
    case (Some err)
    with h e show ?thesis by simp
  qed
qed

lemma handled_ready:
  "queue_ready evs (downloads s) \<Longrightarrow> event_q s = evs \<Longrightarrow> handled evs s = evs"
  using handled_process_events [of s evs] process_events_applies [of s evs] by simp

lemma taken_flush:
  "taken s Flush @ event_q (step s Flush) = event_q s"
  using handled_process_events [of "s\<lparr>log_q := []\<rparr>" "event_q s"]
  by (simp add: taken_def flush_logs_def)

lemma fifo_run:
  "delivered s acts @ event_q (run s acts) = event_q s @ published s acts"
proof (induction acts arbitrary: s)
  case Nil
  then show ?case by (simp add: run_def)
next
  case (Cons a acts)
  have "taken s a @ event_q (step s a) = event_q s @ puts s a"
  proof (cases "a = Flush")
    case True
    with taken_flush [of s] show ?thesis by (simp del: step.simps)
  next
    case False
    with event_q_step [OF False, of s] show ?thesis
      by (cases a) (simp_all add: taken_def del: step.simps)
  qed
  with Cons.IH [of "step s a"] show ?case
    by (simp add: run_def del: step.simps)
qed

subsection \<open>Example executions, evaluated\<close>

lemma prefix_py_in: "prefix needle hay \<Longrightarrow> py_in needle hay"
  by (cases hay) auto

lemma submitted_state:
  "run init [Submit example_url []] =
     \<lparr>log_q = [Stamped [] MsgPreparing],
      event_q = [EvAdd 1 preparing_title],
      downloads = [1 \<mapsto> \<lparr>item_id = 1, title = preparing_title, url = example_url,
         status = ascii ''pending'', progress = 0, speed = [], eta = None, filepath = [],
         cancel_event = Some False, thread = Some Starting, widgets = None\<rparr>],
      download_counter = 2\<rparr>"
  by (simp add: run_def init_def start_download_def app_log_def Let_def strip_example_url)

lemma running_job_state:
  "run init running_job =
     \<lparr>log_q = [], event_q = [],
      downloads = [1 \<mapsto> \<lparr>item_id = 1, title = preparing_title, url = example_url,
         status = ascii ''downloading'', progress = 0, speed = [], eta = None, filepath = [],
         cancel_event = Some False, thread = Some Running,
         widgets = Some (new_row preparing_title)\<rparr>],
      download_counter = 2\<rparr>"
  by (simp add: running_job_def run_def init_def start_download_def app_log_def Let_def
      strip_example_url flush_logs_def add_download_row_def worker_starting_def set_thread_def)

lemma run_Cons: "run s (a # acts) = run (step s a) acts"
  by (simp add: run_def)

lemma run_Nil: "run s [] = s"
  by (simp add: run_def)

lemma run_snoc: "run s (acts @ [a]) = step (run s acts) a"
  by (simp add: run_def)

lemma published_out_of_order:
  "published init out_of_order =
     [EvAdd 1 preparing_title, EvStatus 1 (ascii ''finalizing''),
      EvProgress 1 0 [] None, EvDone 1 example_path]"
  by (simp add: out_of_order_def puts_def init_def start_download_def app_log_def Let_def
      strip_example_url worker_running_def worker_starting_def progress_hook_def finished_def
      downloading_def total_of_def cancel_is_set_def worker_success_def end_worker_def
      set_thread_def ascii_def)

lemma stopped_job_state:
  "run init stopped_job =
     \<lparr>log_q = [Stamped [] (MsgStopped 1)], event_q = [],
      downloads = [1 \<mapsto> \<lparr>item_id = 1, title = preparing_title, url = example_url,
         status = ascii ''downloading'', progress = 0, speed = [], eta = None, filepath = [],
         cancel_event = Some True, thread = Some Running,
         widgets = Some \<lparr>label_text = preparing_title, pb_value = 0,
                          status_text = stopped_text, open_btn = Disabled,
                          stop_btn = Disabled\<rparr>\<rparr>],
      download_counter = 2\<rparr>"
proof -
  have "run init stopped_job = step (run init running_job) (Cancel 1 [])"
    by (simp add: stopped_job_def running_job_def run_def)
  then show ?thesis
    unfolding running_job_state
    by (simp add: click_stop_def stop_enabled_def stop_download_def app_log_def Let_def
        new_row_def)
qed

lemma cancelled_job_state:
  "run init cancelled_job =
     \<lparr>log_q = [], event_q = [],
      downloads = [1 \<mapsto> \<lparr>item_id = 1, title = preparing_title, url = example_url,
         status = cancelled_text, progress = 0, speed = [], eta = None, filepath = [],
         cancel_event = Some True, thread = Some Ended,
         widgets = Some \<lparr>label_text = preparing_title, pb_value = 0,
                          status_text = cancelled_text, open_btn = Disabled,
                          stop_btn = Disabled\<rparr>\<rparr>],
      download_counter = 2\<rparr>"
proof -
  have "run init cancelled_job
          = step (step (run init stopped_job) (Fetch 1 (Raises (ascii ''HTTP Error 404'')))) Flush"
    by (simp add: cancelled_job_def stopped_job_def run_def)
  then show ?thesis
    unfolding stopped_job_state
    by (simp add: worker_running_def worker_except_def cancel_is_set_def end_worker_def
        set_thread_def flush_logs_def set_download_status_def Let_def prefix_py_in)
qed

lemma failed_job_state:
  "run init failed_job =
     \<lparr>log_q = [], event_q = [],
      downloads = [1 \<mapsto> \<lparr>item_id = 1, title = preparing_title, url = example_url,
         status = error_prefix @ ascii ''HTTP Error 404'', progress = 0, speed = [], eta = None,
         filepath = [], cancel_event = Some False, thread = Some Ended,
         widgets = Some \<lparr>label_text = preparing_title, pb_value = 0,
                          status_text = error_prefix @ ascii ''HTTP Error 404'',
                          open_btn = Disabled, stop_btn = Disabled\<rparr>\<rparr>],
      download_counter = 2\<rparr>"
proof -
  have n: "\<not> py_in (ascii ''USER_CANCELLED'') (ascii ''HTTP Error 404'')"
    by (simp add: ascii_def)
  have e: "py_in error_word (error_prefix @ ascii ''HTTP Error 404'')"
    by (rule prefix_py_in) (simp add: error_word_def error_prefix_def)
  have "run init failed_job
          = step (step (run init running_job) (Fetch 1 (Raises (ascii ''HTTP Error 404'')))) Flush"
    by (simp add: failed_job_def running_job_def run_def)
  then show ?thesis
    unfolding running_job_state
    using n e
    by (simp add: worker_running_def worker_except_def cancel_is_set_def end_worker_def
        set_thread_def flush_logs_def set_download_status_def Let_def new_row_def)
qed

subsection \<open>Rounding to the nearest double is monotone\<close>

lemma round_half_even_int [simp]: "round_half_even (of_int n) = n"
  by (simp add: round_half_even_def)

lemma round_half_even_zero [simp]: "round_half_even 0 = 0"
  by (simp add: round_half_even_def)

lemma round_half_even_range:
  "round_half_even x = \<lfloor>x\<rfloor> \<or> round_half_even x = \<lfloor>x\<rfloor> + 1"
  by (simp add: round_half_even_def Let_def)

lemma round_half_even_mono: "x \<le> y \<Longrightarrow> round_half_even x \<le> round_half_even y"
proof -
  assume xy: "x \<le> y"
  then have f: "\<lfloor>x\<rfloor> \<le> \<lfloor>y\<rfloor>" by (rule floor_mono)
  show ?thesis
  proof (cases "\<lfloor>x\<rfloor> = \<lfloor>y\<rfloor>")
    case True
    with xy have "x - of_int \<lfloor>x\<rfloor> \<le> y - of_int \<lfloor>y\<rfloor>" by simp
    with True show ?thesis
      by (auto simp: round_half_even_def Let_def)
  next
    case False
    with f have "\<lfloor>x\<rfloor> + 1 \<le> \<lfloor>y\<rfloor>" by simp
    moreover have "round_half_even x \<le> \<lfloor>x\<rfloor> + 1"
      using round_half_even_range [of x] by auto
    moreover have "\<lfloor>y\<rfloor> \<le> round_half_even y"
      using round_half_even_range [of y] by auto
    ultimately show ?thesis by linarith
  qed
qed

lemma pow2_pos [simp]: "0 < (2::rat) powi k"
  by (simp add: power_int_def)

lemma pow2_diff_nat: "(2::rat) powi (int m - int n) = 2 ^ m / 2 ^ n"
  by (simp add: power_int_diff)

lemma ilog2_bounds:
  assumes "0 < q"
  shows "2 powi (ilog2 q) \<le> q" and "q < 2 powi (ilog2 q + 1)"
proof -
  obtain a b where ab: "quotient_of q = (a, b)" by (cases "quotient_of q")
  then have q: "q = of_int a / of_int b" and b: "0 < b"
    by (simp_all add: quotient_of_div quotient_of_denom_pos)
  with assms have a: "0 < a" by (simp add: zero_less_divide_iff)
  define k where "k = bitlen a - bitlen b"
  from bitlen_bounds [OF a] bitlen_bounds [OF b]
  have ba: "2 ^ nat (bitlen a - 1) \<le> a" "a < 2 ^ nat (bitlen a)"
    and bb: "2 ^ nat (bitlen b - 1) \<le> b" "b < 2 ^ nat (bitlen b)" by simp_all
  have la: "1 \<le> bitlen a" and lb: "1 \<le> bitlen b"
    using a b by (simp_all add: bitlen_alt_def)
  let ?A = "nat (bitlen a)" and ?A' = "nat (bitlen a - 1)"
  let ?B = "nat (bitlen b)" and ?B' = "nat (bitlen b - 1)"
  have ra: "(2::rat) ^ ?A' \<le> of_int a" "of_int a < (2::rat) ^ ?A"
    using ba by (metis of_int_le_iff of_int_numeral of_int_power,
                 metis of_int_less_iff of_int_numeral of_int_power)
  have rb: "(2::rat) ^ ?B' \<le> of_int b" "of_int b < (2::rat) ^ ?B"
    using bb by (metis of_int_le_iff of_int_numeral of_int_power,
                 metis of_int_less_iff of_int_numeral of_int_power)
  have e1: "(2::rat) powi (k + 1) = 2 ^ ?A / 2 ^ ?B'"
  proof -
    have "k + 1 = int ?A - int ?B'" using la lb by (simp add: k_def)
    then have "(2::rat) powi (k + 1) = 2 powi (int ?A - int ?B')" by (rule arg_cong)
    then show ?thesis by (simp only: pow2_diff_nat)
  qed
  have e2: "(2::rat) powi (k - 1) = 2 ^ ?A' / 2 ^ ?B"
  proof -
    have "k - 1 = int ?A' - int ?B" using la lb by (simp add: k_def)
    then have "(2::rat) powi (k - 1) = 2 powi (int ?A' - int ?B)" by (rule arg_cong)
    then show ?thesis by (simp only: pow2_diff_nat)
  qed
  have up: "q < 2 powi (k + 1)"
    unfolding e1 q using a ra rb by (intro frac_less) simp_all
  have lo: "2 powi (k - 1) \<le> q"
    unfolding e2 q using a b ra rb by (intro frac_le) simp_all
  have i: "ilog2 q = (if 2 powi k \<le> q then k else k - 1)"
    by (simp add: ilog2_def ab k_def Let_def)
  show "2 powi (ilog2 q) \<le> q" using i lo by auto
  show "q < 2 powi (ilog2 q + 1)" using i up by (auto simp: not_le)
qed

lemma ilog2_mono:
  assumes "0 < x" and "x \<le> y"
  shows "ilog2 x \<le> ilog2 y"
proof (rule ccontr)
  assume "\<not> ilog2 x \<le> ilog2 y"
  then have "ilog2 y + 1 \<le> ilog2 x" by simp
  then have "(2::rat) powi (ilog2 y + 1) \<le> 2 powi (ilog2 x)"
    by (intro power_int_increasing) simp_all
  also have "\<dots> \<le> x" using assms(1) by (rule ilog2_bounds)
  finally have "2 powi (ilog2 y + 1) \<le> y" using assms(2) by simp
  moreover have "y < 2 powi (ilog2 y + 1)" using assms by (intro ilog2_bounds) simp
  ultimately show False by simp
qed

lemma ulp_exp_mono: "0 < x \<Longrightarrow> x \<le> y \<Longrightarrow> ulp_exp x \<le> ulp_exp y"
  using ilog2_mono [of x y] by (simp add: ulp_exp_def)

lemma nearest_double_nonneg: "0 \<le> q \<Longrightarrow> 0 \<le> nearest_double q"
proof -
  assume q: "0 \<le> q"
  have "0 \<le> round_half_even (q / 2 powi e)" for e
    using round_half_even_mono [of 0 "q / 2 powi e"] q by simp
  then show ?thesis by (simp add: nearest_double_def Let_def)
qed

lemma nearest_double_mono:
  assumes "0 \<le> x" and "x \<le> y"
  shows "nearest_double x \<le> nearest_double y"
proof (cases "x = 0")
  case True
  with assms nearest_double_nonneg [of y] show ?thesis by (simp add: nearest_double_def)
next
  case False
  with assms have x: "0 < x" and y: "0 < y" by simp_all
  let ?e = "ulp_exp x" and ?f = "ulp_exp y"
  have nx: "nearest_double x = of_int (round_half_even (x / 2 powi ?e)) * 2 powi ?e"
    and ny: "nearest_double y = of_int (round_half_even (y / 2 powi ?f)) * 2 powi ?f"
    using x y by (simp_all add: nearest_double_def Let_def)
  have ef: "?e \<le> ?f" using x assms(2) by (rule ulp_exp_mono)
  show ?thesis
  proof (cases "?e = ?f")
    case True
    have "x / 2 powi ?f \<le> y / 2 powi ?f" using assms(2) by (simp add: divide_right_mono)
    then have "round_half_even (x / 2 powi ?f) \<le> round_half_even (y / 2 powi ?f)"
      by (rule round_half_even_mono)
    then show ?thesis unfolding nx ny True by (simp add: mult_right_mono)
  next
    case False
    with ef have lt: "?e + 1 \<le> ?f" by simp
    then have f: "?f = ilog2 y - 52" by (simp add: ulp_exp_def split: if_splits)
    have e: "ilog2 x - 52 \<le> ?e" by (simp add: ulp_exp_def)
    have "x < 2 powi (ilog2 x + 1)" using x by (rule ilog2_bounds)
    also have "\<dots> \<le> 2 powi (?e + 53)" using e by (intro power_int_increasing) simp_all
    finally have "x / 2 powi ?e < 2 powi (?e + 53) / 2 powi ?e"
      by (simp add: divide_strict_right_mono)
    also have "\<dots> = 2 powi 53" by (simp add: power_int_add)
    finally have "x / 2 powi ?e \<le> of_int (2 ^ 53)" by simp
    then have "round_half_even (x / 2 powi ?e) \<le> 2 ^ 53"
      using round_half_even_mono [of "x / 2 powi ?e" "of_int (2 ^ 53)"]
      by (simp only: round_half_even_int)
    then have "(of_int (round_half_even (x / 2 powi ?e)) :: rat) \<le> of_int (2 ^ 53)"
      by (simp only: of_int_le_iff)
    then have ux: "nearest_double x \<le> 2 powi 53 * 2 powi ?e"
      unfolding nx by (intro mult_right_mono) simp_all
    have "2 powi (?f + 52) \<le> y" using ilog2_bounds(1) [OF y] f by simp
    then have "2 powi (?f + 52) / 2 powi ?f \<le> y / 2 powi ?f"
      by (simp add: divide_right_mono)
    moreover have "(2::rat) powi (?f + 52) / 2 powi ?f = 2 powi 52" by (simp add: power_int_add)
    ultimately have "of_int (2 ^ 52) \<le> y / 2 powi ?f" by simp
    then have "2 ^ 52 \<le> round_half_even (y / 2 powi ?f)"
      using round_half_even_mono [of "of_int (2 ^ 52)" "y / 2 powi ?f"]
      by (simp only: round_half_even_int)
    then have "(of_int (2 ^ 52) :: rat) \<le> of_int (round_half_even (y / 2 powi ?f))"
      by (simp only: of_int_le_iff)
    then have ly: "2 powi 52 * 2 powi ?f \<le> nearest_double y"
      unfolding ny by (intro mult_right_mono) simp_all
    have "(2::rat) powi 53 * 2 powi ?e = 2 powi (?e + 53)" by (simp add: power_int_add)
    also have "\<dots> \<le> 2 powi (?f + 52)" using lt by (intro power_int_increasing) simp_all
    also have "\<dots> = 2 powi 52 * 2 powi ?f" by (simp add: power_int_add)
    finally show ?thesis using ux ly by linarith
  qed
qed

lemma int_percent_examples:
  "int_percent 400 1000 = Inr 40" "int_percent 1000 1000 = Inr 100"
  "int_percent 29 100 = Inr 28"
  by code_simp+

lemma to_double_Some: "to_double q = Some v \<Longrightarrow> v = nearest_double q"
  by (simp add: to_double_def Let_def split: if_splits)

lemma int_percent_mono:
  assumes "0 < t" and "0 \<le> x" and "x \<le> y"
    and "int_percent x t = Inr p" and "int_percent y t = Inr q"
  shows "p \<le> q"
proof -
  from assms(4) obtain a a' where
    a: "to_double (of_int x / of_int t) = Some a" "to_double (a * 100) = Some a'"
      "p = (if 0 \<le> a' then \<lfloor>a'\<rfloor> else \<lceil>a'\<rceil>)"
    by (auto simp: int_percent_def true_div_def float_mul_def py_int_def
        split: if_splits option.splits sum.splits)
  from assms(5) obtain b b' where
    b: "to_double (of_int y / of_int t) = Some b" "to_double (b * 100) = Some b'"
      "q = (if 0 \<le> b' then \<lfloor>b'\<rfloor> else \<lceil>b'\<rceil>)"
    by (auto simp: int_percent_def true_div_def float_mul_def py_int_def
        split: if_splits option.splits sum.splits)
  have xt: "(0::rat) \<le> of_int x / of_int t" using assms(1,2) by simp
  have le: "(of_int x :: rat) / of_int t \<le> of_int y / of_int t"
    using assms(1,3) by (simp add: divide_right_mono)
  have a0: "0 \<le> a" and ab: "a \<le> b"
    using to_double_Some [OF a(1)] to_double_Some [OF b(1)]
      nearest_double_nonneg [OF xt] nearest_double_mono [OF xt le] by simp_all
  then have "0 \<le> a * 100" "a * 100 \<le> b * 100" by simp_all
  then have "0 \<le> a'" "a' \<le> b'"
    using to_double_Some [OF a(2)] to_double_Some [OF b(2)]
      nearest_double_nonneg [of "a * 100"] nearest_double_mono [of "a * 100" "b * 100"]
    by simp_all
  with a(3) b(3) show ?thesis by (simp add: floor_mono)
qed

subsection \<open>The percents of a job\<close>

lemma progress_values_append [simp]:
  "progress_values dlid (xs @ ys) = progress_values dlid xs @ progress_values dlid ys"
  by (induction dlid xs rule: progress_values.induct) simp_all

lemma hook_percent:
  "progress_hook s k d = Inr s' \<Longrightarrow> d_status d = Some (ascii ''downloading'') \<Longrightarrow>
     \<exists>p. percent_of d = Inr p
        \<and> event_q s' = event_q s @ [EvProgress k p (speed_of d) (d_eta d)]
        \<and> downloads s' = downloads s"
  by (auto simp: progress_hook_def percent_of_def downloaded_of_def speed_of_def Let_def
      split: if_splits sum.splits option.splits)

lemma hook_other_status:
  "progress_hook s k d = Inr s' \<Longrightarrow> d_status d \<noteq> Some (ascii ''downloading'') \<Longrightarrow>
     progress_values dlid (drop (length (event_q s)) (event_q s')) = []"
  by (auto simp: progress_hook_def Let_def split: if_splits)

lemma progress_values_puts:
  "progress_values dlid (puts s a) = []
   \<or> (\<exists>d p. a = Fetch dlid (Notification d) \<and> d_status d = Some (ascii ''downloading'')
         \<and> percent_of d = Inr p \<and> progress_values dlid (puts s a) = [p])"
proof (cases a)
  case (Submit u ts)
  then show ?thesis by (simp add: puts_submit)
next
  case (Cancel k ts)
  then show ?thesis by simp
next
  case Flush
  then show ?thesis by simp
next
  case (Fetch k f)
  show ?thesis
  proof (cases "worker_running s k")
    case False
    then have "puts s (Fetch k f) = []" by (cases f) (simp_all add: puts_def)
    with Fetch show ?thesis by simp
  next
    case True
    show ?thesis
    proof (cases f)
      case (Notification d)
      show ?thesis
      proof (cases "progress_hook s k d")
        case (Inl msg)
        with True Fetch Notification show ?thesis by (simp add: puts_hook_raises)
      next
        case (Inr s')
        have p: "puts s a = drop (length (event_q s)) (event_q s')"
          using True Fetch Notification Inr by (simp add: puts_def)
        show ?thesis
        proof (cases "d_status d = Some (ascii ''downloading'')")
          case False
          from hook_other_status [OF Inr False] p show ?thesis by simp
        next
          case True
          from hook_percent [OF Inr True] obtain p' where
            h: "percent_of d = Inr p'"
              "event_q s' = event_q s @ [EvProgress k p' (speed_of d) (d_eta d)]" by blast
          show ?thesis
          proof (cases "k = dlid")
            case True
            with h p Fetch Notification \<open>d_status d = Some (ascii ''downloading'')\<close>
            show ?thesis by simp
          next
            case False
            with h p show ?thesis by simp
          qed
        qed
      qed
    next
      case (Returns path)
      with True Fetch show ?thesis by (simp add: puts_returns)
    next
      case (Raises msg)
      with True Fetch show ?thesis by (simp add: puts_raises)
    qed (simp_all add: Fetch puts_thread_steps)
  qed
qed

lemma steady_Cons:
  "steady t (d # ds) \<Longrightarrow>
     steady t ds \<and> total_of d = Some t \<and> 0 \<le> downloaded_of d
     \<and> (\<forall>d' \<in> set ds. downloaded_of d \<le> downloaded_of d')"
  by (auto simp: steady_def)

lemma steady_total: "steady t ds \<Longrightarrow> d \<in> set ds \<Longrightarrow> total_of d = Some t \<and> 0 \<le> downloaded_of d"
  by (auto simp: steady_def list_all_iff)

lemma notifications_Cons:
  "notifications dlid (a # acts) = notifications dlid acts
   \<or> (\<exists>d. notifications dlid (a # acts) = d # notifications dlid acts)"
proof (cases a)
  case (Fetch k f)
  then show ?thesis by (cases f) simp_all
qed simp_all

lemma progress_sorted:
  assumes "0 < t"
  shows "steady t (notifications dlid acts) \<Longrightarrow>
     sorted (progress_values dlid (published s acts))
     \<and> (\<forall>p \<in> set (progress_values dlid (published s acts)).
           \<exists>d \<in> set (notifications dlid acts). int_percent (downloaded_of d) t = Inr p)"
proof (induction acts arbitrary: s)
  case Nil
  then show ?case by simp
next
  case (Cons a acts)
  let ?rest = "progress_values dlid (published (step s a) acts)"
  from progress_values_puts [of dlid s a] show ?case
  proof
    assume e: "progress_values dlid (puts s a) = []"
    have st: "steady t (notifications dlid acts)"
         and sub: "set (notifications dlid acts) \<subseteq> set (notifications dlid (a # acts))"
      using Cons.prems notifications_Cons [of dlid a acts]
      by (auto dest: steady_Cons)
    from Cons.IH [OF st, of "step s a"] e sub show ?thesis
      by (simp del: step.simps) blast
  next
    assume "\<exists>d p. a = Fetch dlid (Notification d) \<and> d_status d = Some (ascii ''downloading'')
         \<and> percent_of d = Inr p \<and> progress_values dlid (puts s a) = [p]"
    then obtain d p where
      a: "a = Fetch dlid (Notification d)" "d_status d = Some (ascii ''downloading'')"
        "percent_of d = Inr p" "progress_values dlid (puts s a) = [p]" by blast
    from a have n: "notifications dlid (a # acts) = d # notifications dlid acts" by simp
    from steady_Cons [OF Cons.prems [unfolded n]] have
      st: "steady t (notifications dlid acts)" and td: "total_of d = Some t"
      and d0: "0 \<le> downloaded_of d"
      and le: "\<forall>d' \<in> set (notifications dlid acts). downloaded_of d \<le> downloaded_of d'"
      by simp_all
    have pd: "int_percent (downloaded_of d) t = Inr p"
      using a(3) td assms by (simp add: percent_of_def)
    note ih = Cons.IH [OF st, of "step s a"]
    have "p \<le> q" if "q \<in> set ?rest" for q
    proof -
      from ih that obtain d' where
        d': "d' \<in> set (notifications dlid acts)" "int_percent (downloaded_of d') t = Inr q"
        by blast
      from le d'(1) have "downloaded_of d \<le> downloaded_of d'" by blast
      from int_percent_mono [OF assms d0 this pd d'(2)] show ?thesis .
    qed
    with ih a(4) pd n show ?thesis
      by (simp del: step.simps)
  qed
qed

lemma known_total_state:
  "run init known_total =
     \<lparr>log_q = [], event_q = [],
      downloads = [1 \<mapsto> \<lparr>item_id = 1, title = preparing_title, url = example_url,
         status = ascii ''downloading'', progress = 40, speed = [], eta = None,
         filepath = [], cancel_event = Some False, thread = Some Running,
         widgets = Some \<lparr>label_text = preparing_title, pb_value = 40,
                          status_text = progress_label 40 [] None, open_btn = Disabled,
                          stop_btn = Normal\<rparr>\<rparr>],
      download_counter = 2\<rparr>"
  by (simp add: known_total_def run_def init_def start_download_def app_log_def Let_def
      strip_example_url flush_logs_def add_download_row_def update_download_row_def
      worker_running_def worker_starting_def set_thread_def progress_hook_def downloading_def
      total_of_def cancel_is_set_def int_percent_examples new_row_def)

lemma total_lost_run:
  "run init total_lost
     = step (step (run init known_total) (Fetch 1 (Notification (downloading 500 None)))) Flush"
  by (simp add: total_lost_def known_total_def run_def)

lemma total_lost_state:
  "run init total_lost =
     \<lparr>log_q = [], event_q = [],
      downloads = [1 \<mapsto> \<lparr>item_id = 1, title = preparing_title, url = example_url,
         status = ascii ''downloading'', progress = 0, speed = [], eta = None,
         filepath = [], cancel_event = Some False, thread = Some Running,
         widgets = Some \<lparr>label_text = preparing_title, pb_value = 0,
                          status_text = progress_label 0 [] None, open_btn = Disabled,
                          stop_btn = Normal\<rparr>\<rparr>],
      download_counter = 2\<rparr>"
  unfolding total_lost_run known_total_state
  by (simp add: flush_logs_def update_download_row_def
      worker_running_def progress_hook_def downloading_def total_of_def cancel_is_set_def)

lemma published_total_lost:
  "published init total_lost =
     [EvAdd 1 preparing_title, EvProgress 1 40 [] None, EvProgress 1 0 [] None]"
  by (simp add: total_lost_def puts_def init_def start_download_def app_log_def Let_def
      strip_example_url flush_logs_def add_download_row_def update_download_row_def
      worker_running_def worker_starting_def set_thread_def progress_hook_def downloading_def
      total_of_def cancel_is_set_def int_percent_examples new_row_def)

lemma published_scenario_a:
  "published init scenario_a =
     [EvAdd 1 preparing_title, EvProgress 1 40 [] None, EvProgress 1 100 [] None,
      EvStatus 1 (ascii ''finalizing''), EvDone 1 example_path]"
  by (simp add: scenario_a_def puts_def init_def start_download_def app_log_def Let_def
      strip_example_url flush_logs_def add_download_row_def update_download_row_def
      worker_running_def worker_starting_def set_thread_def progress_hook_def downloading_def
      finished_def total_of_def cancel_is_set_def int_percent_examples new_row_def
      worker_success_def end_worker_def ascii_def)

lemma settled_snoc:
  "downloads s' = downloads s \<Longrightarrow> event_q s' = event_q s @ [ev] \<Longrightarrow> event_id ev = dlid \<Longrightarrow>
     settled s' dlid = map_option (apply_event ev) (settled s dlid)"
  by (simp add: settled_def job_events_def option.map_comp comp_def)

lemma notify_progress:
  assumes "worker_running s dlid" and "\<not> cancel_is_set s dlid"
    and "d_status d = Some (ascii ''downloading'')" and "percent_of d = Inr p"
  shows "progress_hook s dlid d =
           Inr (s\<lparr>event_q := event_q s @ [EvProgress dlid p (speed_of d) (d_eta d)],
                  log_q := log_q s @
                    [Plain (MsgHook
                       (case d_percent_str d of None \<Rightarrow> ascii ''?'' | Some v \<Rightarrow> v)
                       (case d_filename d of None \<Rightarrow> [] | Some v \<Rightarrow> v))]\<rparr>)"
  using assms
  by (auto simp: progress_hook_def percent_of_def downloaded_of_def speed_of_def Let_def
      split: option.splits sum.splits if_splits)

subsection \<open>No operation reads the stored URL\<close>


lemma set_url_fields [simp]:
  "event_q (set_url s k u) = event_q s" "log_q (set_url s k u) = log_q s"
  "download_counter (set_url s k u) = download_counter s"
  by (simp_all add: set_url_def split: option.splits)

lemma downloads_set_url:
  "downloads (set_url s k u) j
     = (if j = k then map_option (\<lambda>item. item\<lparr>url := u\<rparr>) (downloads s j) else downloads s j)"
  by (simp add: set_url_def split: option.splits)











lemma stop_enabled_set_url [simp]: "stop_enabled (set_url s k u) j = stop_enabled s j"
  by (cases "downloads s j") (auto simp: stop_enabled_def downloads_set_url)


lemma cancel_is_set_set_url [simp]: "cancel_is_set (set_url s k u) j = cancel_is_set s j"
  by (cases "downloads s j") (auto simp: cancel_is_set_def downloads_set_url)

lemma worker_running_set_url [simp]: "worker_running (set_url s k u) j = worker_running s j"
  by (cases "downloads s j") (auto simp: worker_running_def downloads_set_url)

lemma worker_starting_set_url [simp]: "worker_starting (set_url s k u) j = worker_starting s j"
  by (cases "downloads s j") (auto simp: worker_starting_def downloads_set_url)












subsection \<open>The stop button of a job in a terminal state\<close>

lemma terminal_text_disables:
  "text = cancelled_text \<or> prefix error_prefix text \<Longrightarrow>
     py_in cancelled_text text \<or> py_in error_word text \<or> py_in failed_word text"
proof (elim disjE)
  assume "text = cancelled_text"
  then show ?thesis by (simp add: prefix_py_in)
next
  assume "prefix error_prefix text"
  moreover have "prefix error_word error_prefix"
    by (simp add: error_word_def error_prefix_def)
  ultimately have "prefix error_word text" by (rule prefix_order.trans [rotated])
  then show ?thesis by (simp add: prefix_py_in)
qed

lemma fresh_status_not_terminal [simp]:
  "\<not> terminal_status (ascii ''pending'')" "\<not> terminal_status (ascii ''downloading'')"
  "\<not> terminal_status (ascii ''finalizing'')"
  by (simp_all add: terminal_status_def ascii_def cancelled_text_def error_prefix_def)

lemma handle_event_guard:
  assumes "handle_event s ev = (r, s')"
    and "\<forall>k item. downloads s k = Some item \<longrightarrow> guarded_item item"
    and "\<forall>k. ev \<noteq> EvStatus k (ascii ''done'')"
  shows "\<forall>k item. downloads s' k = Some item \<longrightarrow> guarded_item item"
proof (cases ev)
  case (EvAdd j ttl)
  with assms show ?thesis
    by (auto simp: add_download_row_def guarded_item_def split: option.splits if_splits)
next
  case (EvProgress j p spd e)
  with assms show ?thesis
    by (auto simp: update_download_row_def guarded_item_def Let_def
        split: option.splits if_splits)
next
  case (EvStatus j tx)
  with assms(3) have n: "tx \<noteq> ascii ''done''" by simp
  have t: "py_in cancelled_text tx \<or> py_in error_word tx \<or> py_in failed_word tx"
    if "terminal_status tx"
    using that n terminal_text_disables [of tx] by (simp add: terminal_status_def)
  from assms(1,2) EvStatus t show ?thesis
    by (auto simp: set_download_status_def guarded_item_def Let_def
        split: option.splits if_splits)
next
  case (EvDone j path)
  with assms show ?thesis
    by (auto simp: set_download_done_def guarded_item_def Let_def
        split: option.splits if_splits)
qed

lemma process_events_guard:
  "\<forall>k item. downloads s k = Some item \<longrightarrow> guarded_item item \<Longrightarrow> no_done_status evs \<Longrightarrow>
     \<forall>k item. downloads (snd (process_events evs s)) k = Some item \<longrightarrow> guarded_item item"
proof (induction evs arbitrary: s)
  case Nil
  then show ?case by simp
next
  case (Cons ev rest)
  obtain r1 s1 where h: "handle_event (s\<lparr>event_q := rest\<rparr>) ev = (r1, s1)"
    by (cases "handle_event (s\<lparr>event_q := rest\<rparr>) ev")
  from Cons.prems(2) have n: "\<forall>k. ev \<noteq> EvStatus k (ascii ''done'')" and m: "no_done_status rest"
    by (auto simp: no_done_status_def)
  have g: "\<forall>k item. downloads s1 k = Some item \<longrightarrow> guarded_item item"
    using handle_event_guard [OF h _ n] Cons.prems(1) by simp
  show ?case
  proof (cases r1)
    case None
    with h Cons.IH [OF g m] show ?thesis by simp
  next
    case (Some e)
    with h g show ?thesis by simp
  qed
qed

lemma widgets_set_thread:
  "map_option widgets (downloads (set_thread s k st) j) = map_option widgets (downloads s j)"
  "map_option status (downloads (set_thread s k st) j) = map_option status (downloads s j)"
  by (auto simp: set_thread_def split: option.splits)

lemma guarded_worker_step:
  "map_option guarded_item (downloads (worker_step s k f) j)
     = map_option guarded_item (downloads s j)"
proof -
  have g: "map_option guarded_item (downloads (set_thread s' k st) j)
             = map_option guarded_item (downloads s' j)" for s' st
    by (auto simp: set_thread_def guarded_item_def split: option.splits)
  show ?thesis
  proof (cases f)
    case (Notification d)
    then show ?thesis
      by (cases "progress_hook s k d") (auto simp: end_worker_def g dest: progress_hook_Inr)
  qed (simp_all add: end_worker_def g)
qed

lemma puts_no_done: "no_done_status (puts s a)"
proof (cases a)
  case (Submit u ts)
  then show ?thesis by (simp add: puts_submit no_done_status_def)
next
  case (Fetch k f)
  have x: "except_status s k msg \<noteq> ascii ''done''" for msg
    by (simp add: except_status_def cancelled_text_def error_prefix_def ascii_def)
  show ?thesis
  proof (cases "worker_running s k")
    case False
    then have "puts s (Fetch k f) = []" by (cases f) (simp_all add: puts_def)
    with Fetch show ?thesis by (simp add: no_done_status_def)
  next
    case True
    show ?thesis
    proof (cases f)
      case (Notification d)
      show ?thesis
      proof (cases "progress_hook s k d")
        case (Inl msg)
        with True Fetch Notification x [of msg] show ?thesis
          by (auto simp: puts_hook_raises no_done_status_def)
      next
        case (Inr s')
        with True Fetch Notification show ?thesis
          by (auto simp: puts_def no_done_status_def progress_hook_def Let_def ascii_def
              split: if_splits sum.splits option.splits)
      qed
    next
      case (Returns path)
      with True Fetch show ?thesis by (simp add: puts_returns no_done_status_def)
    next
      case (Raises msg)
      with True Fetch x [of msg] show ?thesis by (auto simp: puts_raises no_done_status_def)
    qed (simp_all add: Fetch puts_thread_steps no_done_status_def)
  qed
qed (simp_all add: no_done_status_def)

lemma no_done_append:
  "no_done_status (xs @ ys) = (no_done_status xs \<and> no_done_status ys)"
  by (auto simp: no_done_status_def)

lemma stop_guarded_step: "ids_below_counter s \<Longrightarrow> stop_guarded s \<Longrightarrow> stop_guarded (step s a)"
proof -
  assume i: "ids_below_counter s" and g: "stop_guarded s"
  then have gi: "\<forall>k item. downloads s k = Some item \<longrightarrow> guarded_item item"
    and nd: "no_done_status (event_q s)"
    by (simp_all add: stop_guarded_def)
  show ?thesis
  proof (cases "a = Flush")
    case True
    have "\<forall>k item. downloads (snd (flush_logs s)) k = Some item \<longrightarrow> guarded_item item"
      unfolding flush_logs_def
      by (rule process_events_guard) (use gi nd in simp_all)
    moreover have "set (event_q (step s Flush)) \<subseteq> set (event_q s)"
      using taken_flush [of s] by (metis set_append Un_upper2)
    then have "no_done_status (event_q (step s Flush))"
      using nd by (auto simp: no_done_status_def)
    ultimately show ?thesis using True by (simp add: stop_guarded_def)
  next
    case False
    have q: "no_done_status (event_q (step s a))"
      using event_q_step [OF False, of s] nd puts_no_done [of s a]
      by (simp add: no_done_append del: step.simps)
    have "\<forall>k item. downloads (step s a) k = Some item \<longrightarrow> guarded_item item"
    proof (cases a)
      case (Submit u ts)
      with gi show ?thesis
        by (auto simp: start_download_def Let_def app_log_def guarded_item_def
            split: if_splits)
    next
      case (Cancel j ts)
      with gi show ?thesis
        by (auto simp: click_stop_def stop_download_def Let_def app_log_def guarded_item_def
            split: if_splits option.splits)
    next
      case Flush
      with False show ?thesis by simp
    next
      case (Fetch j f)
      show ?thesis
      proof (intro allI impI)
        fix k item assume h: "downloads (step s a) k = Some item"
        with guarded_worker_step [of s j f k] Fetch
        obtain item0 where "downloads s k = Some item0" "guarded_item item = guarded_item item0"
          by (cases "downloads s k") auto
        with gi show "guarded_item item" by blast
      qed
    qed
    with q show ?thesis by (simp add: stop_guarded_def)
  qed
qed

lemma stop_guarded_run:
  "ids_below_counter s \<Longrightarrow> stop_guarded s \<Longrightarrow> stop_guarded (run s acts)"
proof (induction acts arbitrary: s)
  case Nil
  then show ?case by (simp add: run_def)
next
  case (Cons a acts)
  from Cons.prems have "ids_below_counter (step s a)" "stop_guarded (step s a)"
    by (simp_all add: step_terminal(2) stop_guarded_step)
  from Cons.IH [OF this] show ?case by (simp add: run_def)
qed

lemma stop_guarded_init: "stop_guarded init"
  by (simp add: stop_guarded_def init_def no_done_status_def)

lemma terminal_not_enabled:
  "stop_guarded s \<Longrightarrow> job_terminal s dlid \<Longrightarrow> \<not> stop_enabled s dlid"
  by (auto simp: stop_guarded_def job_terminal_def stop_enabled_def guarded_item_def
      split: option.splits)

subsection \<open>The order of the events of a job with an orderly fetcher\<close>

lemma status_names [simp]:
  "ascii ''downloading'' \<noteq> ascii ''finished''" "ascii ''finished'' \<noteq> ascii ''downloading''"
  by (simp_all add: ascii_def)

lemma spec_order_antitone:
  "spec_order_from st ks \<Longrightarrow> Suc 0 \<le> st' \<Longrightarrow> st' \<le> st \<Longrightarrow> spec_order_from st' ks"
proof (cases ks)
  case (Cons k rest)
  assume "spec_order_from st ks" "Suc 0 \<le> st'" "st' \<le> st"
  with Cons show ?thesis by (cases k) auto
qed simp

lemma order_pos_cong:
  "map_option thread (downloads s' dlid) = map_option thread (downloads s dlid) \<Longrightarrow>
     order_pos s' fin dlid = order_pos s fin dlid"
  by (auto simp: order_pos_def worker_running_def worker_starting_def split: option.splits)

lemma order_pos_set_thread:
  "downloads s dlid \<noteq> None \<Longrightarrow>
     order_pos (set_thread s dlid st) fin dlid
       = (if st = Starting \<or> st = Running then (if fin then 3 else 2) else 4)"
  by (auto simp: order_pos_def set_thread_def worker_running_def worker_starting_def)

lemma order_pos_alive:
  "worker_starting s dlid \<or> worker_running s dlid \<Longrightarrow>
     order_pos s fin dlid = (if fin then 3 else 2)"
  by (auto simp: order_pos_def worker_running_def worker_starting_def split: option.splits)

lemma order_pos_flag:
  "\<not> (worker_starting s dlid \<or> worker_running s dlid) \<Longrightarrow>
     order_pos s fin dlid = order_pos s fin' dlid"
  by (simp add: order_pos_def)

lemma order_pos_le: "order_pos s False dlid \<le> order_pos s fin dlid"
  by (simp add: order_pos_def)

lemma hook_finished:
  "d_status d = Some (ascii ''finished'') \<Longrightarrow>
     progress_hook s k d = Inr (s\<lparr>event_q := event_q s @ [EvStatus k (ascii ''finalizing'')]\<rparr>)"
  by (simp add: progress_hook_def ascii_def)

lemma hook_silent:
  "d_status d \<noteq> Some (ascii ''finished'') \<Longrightarrow> d_status d \<noteq> Some (ascii ''downloading'') \<Longrightarrow>
     progress_hook s k d = Inr s"
  by (simp add: progress_hook_def)

lemma hook_downloading:
  "d_status d = Some (ascii ''downloading'') \<Longrightarrow> progress_hook s k d = Inr s' \<Longrightarrow>
     \<exists>p spd e. event_q s' = event_q s @ [EvProgress k p spd e] \<and> downloads s' = downloads s"
  by (auto simp: progress_hook_def Let_def split: if_splits sum.splits option.splits)

lemma kinds_single:
  "job_kinds dlid [ev] = (if event_id ev = dlid then [kind_of ev] else [])"
  by (simp add: job_kinds_def job_events_def)

lemma kinds_nil [simp]: "job_kinds dlid [] = []"
  by (simp add: job_kinds_def job_events_def)

lemma spec_order_terminal:
  "k = Completed \<or> k = Failed \<or> k = Cancelled \<Longrightarrow>
     spec_order_from st (k # rest) = (st \<le> 3 \<and> spec_order_from 4 rest)"
  by auto

lemma order_step:
  assumes i: "ids_below_counter s"
    and o: "orderly_from fin dlid (a # acts)"
    and r: "\<And>fin'. orderly_from fin' dlid acts \<Longrightarrow> (fin \<longrightarrow> fin') \<Longrightarrow>
              spec_order_from (order_pos (step s a) fin' dlid) rest"
  shows "spec_order_from (order_pos s fin dlid) (job_kinds dlid (puts s a) @ rest)"
proof -
  define fin' where "fin' = (fin \<or> job_notice dlid a = Some (ascii ''finished''))"
  have o': "orderly_from fin' dlid acts"
    using o by (auto simp: fin'_def split: if_splits)
  have nf: "\<not> fin" if "job_notice dlid a = Some (ascii ''downloading'')
                        \<or> job_notice dlid a = Some (ascii ''finished'')"
    using o that by (auto split: if_splits)
  have r': "spec_order_from (order_pos (step s a) fin' dlid) rest"
    by (rule r [OF o']) (simp add: fin'_def)
  have quiet: ?thesis
    if p: "job_kinds dlid (puts s a) = []"
      and q: "order_pos s fin dlid \<le> order_pos (step s a) fin' dlid"
      and z: "order_pos s fin dlid = 0 \<longrightarrow> order_pos (step s a) fin' dlid = 0"
  proof (cases "order_pos s fin dlid = 0")
    case True
    with z r' p show ?thesis by simp
  next
    case False
    then have "Suc 0 \<le> order_pos s fin dlid" by simp
    from spec_order_antitone [OF r' this q] p show ?thesis by simp
  qed
  show ?thesis
  proof (cases a)
    case (Submit u ts)
    then have n: "job_notice dlid a = None" by simp
    then have ff: "fin' = fin" by (simp add: fin'_def)
    show ?thesis
    proof (cases "strip u = []")
      case True
      with Submit r' ff show ?thesis
        by (simp add: puts_submit start_download_def)
    next
      case False
      from i have f: "downloads s (download_counter s) = None"
        by (auto simp: ids_below_counter_def)
      have m: "downloads (step s a) =
            (downloads s)(download_counter s \<mapsto>
               \<lparr>item_id = download_counter s, title = preparing_title, url = strip u,
                status = ascii ''pending'', progress = 0, speed = [], eta = None,
                filepath = [], cancel_event = Some False, thread = Some Starting,
                widgets = None\<rparr>)"
        using False Submit by (simp add: start_download_def Let_def app_log_def)
      show ?thesis
      proof (cases "dlid = download_counter s")
        case True
        have a: "order_pos s fin dlid = 0" using True f by (simp add: order_pos_def)
        have b: "order_pos (step s a) fin' dlid = (if fin' then 3 else 2)"
          using True m by (simp add: order_pos_def worker_starting_def del: step.simps)
        have "spec_order_from (Suc 0) rest"
          by (rule spec_order_antitone [OF r']) (simp_all add: b)
        with a \<open>strip u \<noteq> []\<close> Submit True show ?thesis
          by (simp add: puts_submit kinds_single del: step.simps)
      next
        case False
        have "order_pos (step s a) fin dlid = order_pos s fin dlid"
          using False m by (intro order_pos_cong) (simp del: step.simps)
        with r' ff \<open>strip u \<noteq> []\<close> Submit False show ?thesis
          by (simp add: puts_submit kinds_single del: step.simps)
      qed
    qed
  next
    case (Cancel k ts)
    have "order_pos (click_stop s k ts) fin dlid = order_pos s fin dlid"
      by (rule order_pos_cong) (rule click_stop_frame)
    with Cancel r' show ?thesis by (simp add: fin'_def)
  next
    case Flush
    have "order_pos (snd (flush_logs s)) fin dlid = order_pos s fin dlid"
      by (rule order_pos_cong) (rule flush_frame)
    with Flush r' show ?thesis by (simp add: fin'_def)
  next
    case (Fetch k f)
    show ?thesis
    proof (cases "k = dlid")
      case False
      have e: "job_kinds dlid (puts s (Fetch k f)) = []"
      proof -
        have "event_id ev \<noteq> dlid" if "ev \<in> set (puts s (Fetch k f))" for ev
          using puts_fetch [OF that] False by blast
        then show ?thesis by (auto simp: job_kinds_def job_events_def filter_empty_conv)
      qed
      have "order_pos (worker_step s k f) fin dlid = order_pos s fin dlid"
        using False by (intro order_pos_cong) (simp add: worker_step_other)
      moreover have "fin' = fin" using False Fetch by (cases f) (simp_all add: fin'_def)
      ultimately show ?thesis using e Fetch r' by simp
    next
      case True
      show ?thesis
      proof (cases "worker_running s dlid")
        case nr: False
        have e: "job_kinds dlid (puts s a) = []"
        proof -
          have "False" if "ev \<in> set (puts s (Fetch k f))" for ev
            using puts_fetch [OF that] nr True by blast
          then have "puts s (Fetch k f) = []" by (cases "puts s (Fetch k f)") auto
          with Fetch show ?thesis by simp
        qed
        show ?thesis
        proof (cases "worker_starting s dlid")
          case False
          with nr True have "worker_step s k f = s" by (cases f) simp_all
          with Fetch have "step s a = s" by simp
          moreover have "order_pos s fin dlid = order_pos s fin' dlid"
            using nr False by (intro order_pos_flag) simp
          ultimately show ?thesis using e r' by simp
        next
          case st: True
          then have d: "downloads s dlid \<noteq> None" by (rule starting_in_dom)
          have p: "order_pos s fin dlid = (if fin then 3 else 2)"
            using st by (simp add: order_pos_alive)
          have "order_pos (step s a) fin' dlid = (if fin' then 3 else 2)
                \<or> order_pos (step s a) fin' dlid = 4"
          proof (cases f)
            case FolderReady
            with Fetch True st d show ?thesis by (simp add: order_pos_set_thread)
          next
            case (FolderFails msg)
            with Fetch True st d show ?thesis by (simp add: order_pos_set_thread)
          qed (use Fetch True nr st in \<open>simp_all add: order_pos_alive\<close>)
          then show ?thesis
            using p by (intro quiet e) (auto simp: fin'_def)
        qed
      next
        case w: True
        then have d: "downloads s dlid \<noteq> None" by (rule running_in_dom)
        have p: "order_pos s fin dlid = (if fin then 3 else 2)"
          using w by (simp add: order_pos_alive)
        show ?thesis
        proof (cases f)
          case FolderReady
          with Fetch True running_not_starting [OF w] r' p w show ?thesis
            by (simp add: puts_thread_steps fin'_def)
        next
          case (FolderFails msg)
          with Fetch True running_not_starting [OF w] r' p w show ?thesis
            by (simp add: puts_thread_steps fin'_def)
        next
          case (Escapes msg)
          have "order_pos (step s a) fin' dlid = 4"
            using Fetch True w Escapes d by (simp add: order_pos_set_thread)
          then show ?thesis
            using p Fetch Escapes by (intro quiet) (simp_all add: puts_thread_steps)
        next
          case (Returns path)
          have "order_pos (step s a) fin' dlid = 4"
            using Fetch True w Returns d by (simp add: end_worker_def order_pos_set_thread)
          with r' have "spec_order_from 4 rest" by simp
          moreover have "puts s a = [EvDone dlid path]"
            using Fetch True w Returns by (simp add: puts_returns)
          ultimately show ?thesis using p by (simp add: kinds_single)
        next
          case (Raises msg)
          have "order_pos (step s a) fin' dlid = 4"
            using Fetch True w Raises d by (simp add: end_worker_def order_pos_set_thread)
          with r' have "spec_order_from 4 rest" by simp
          moreover have "puts s a = [EvStatus dlid (except_status s dlid msg)]"
            using Fetch True w Raises by (simp add: puts_raises)
          ultimately show ?thesis
            using p kind_of_except [of dlid s msg] by (auto simp: kinds_single)
        next
          case (Notification d')
          show ?thesis
          proof (cases "progress_hook s dlid d'")
            case (Inl msg)
            have "order_pos (step s a) fin' dlid = 4"
              using Fetch True w Notification Inl d
              by (simp add: end_worker_def order_pos_set_thread)
            with r' have "spec_order_from 4 rest" by simp
            moreover have "puts s a = [EvStatus dlid (except_status s dlid msg)]"
              using Fetch True w Notification Inl by (simp add: puts_hook_raises)
            ultimately show ?thesis
              using p kind_of_except [of dlid s msg] by (auto simp: kinds_single)
          next
            case (Inr s')
            have ds: "downloads s' = downloads s" using progress_hook_Inr [OF Inr] by simp
            have st: "step s a = s'" using Fetch True w Notification Inr by simp
            have "order_pos s' fin' dlid = order_pos s fin' dlid"
              by (rule order_pos_cong) (simp add: ds)
            with w have pa: "order_pos s' fin' dlid = (if fin' then 3 else 2)"
              by (simp add: order_pos_alive)
            have pu: "puts s a = drop (length (event_q s)) (event_q s')"
              using Fetch True w Notification Inr by (simp add: puts_def)
            have jn: "job_notice dlid a = d_status d'"
              using Fetch True Notification by simp
            show ?thesis
            proof (cases "d_status d' = Some (ascii ''downloading'')")
              case True
              with nf jn have "\<not> fin" by simp
              moreover have "fin' = fin" using True jn by (simp add: fin'_def ascii_def)
              moreover from hook_downloading [OF True Inr] obtain pc spd e where
                "event_q s' = event_q s @ [EvProgress dlid pc spd e]" by blast
              ultimately show ?thesis
                using r' st pa pu p by (simp add: kinds_single)
            next
              case nd: False
              show ?thesis
              proof (cases "d_status d' = Some (ascii ''finished'')")
                case True
                with nf jn have "\<not> fin" by simp
                moreover have "fin'" using True jn by (simp add: fin'_def)
                moreover have "event_q s' = event_q s @ [EvStatus dlid (ascii ''finalizing'')]"
                  using hook_finished [OF True, of s dlid] Inr by simp
                ultimately show ?thesis
                  using r' st pa pu p by (simp add: kinds_single)
              next
                case False
                with nd hook_silent [of d' s dlid] Inr have "s' = s" by simp
                moreover have "fin' = fin" using False jn by (simp add: fin'_def)
                ultimately show ?thesis using r' st pu by simp
              qed
            qed
          qed
        qed
      qed
    qed
  qed
qed

lemma order_run:
  "ids_below_counter s \<Longrightarrow> orderly_from fin dlid acts \<Longrightarrow>
     spec_order_from (order_pos s fin dlid) (job_kinds dlid (published s acts))"
proof (induction acts arbitrary: s fin)
  case Nil
  then show ?case by simp
next
  case (Cons a acts)
  have n: "ids_below_counter (step s a)" using Cons.prems(1) by (rule step_terminal(2))
  have "spec_order_from (order_pos s fin dlid)
          (job_kinds dlid (puts s a) @ job_kinds dlid (published (step s a) acts))"
    by (rule order_step [OF Cons.prems]) (rule Cons.IH [OF n])
  then show ?case by (simp del: step.simps)
qed

subsection \<open>Threads that are over\<close>

lemma worker_aborted_cong:
  "map_option thread (downloads s' dlid) = map_option thread (downloads s dlid) \<Longrightarrow>
     worker_aborted s' dlid = worker_aborted s dlid"
  by (auto simp: worker_aborted_def split: option.splits)

lemma aborted_not_alive:
  "worker_aborted s dlid \<Longrightarrow>
     \<not> worker_starting s dlid \<and> \<not> worker_running s dlid \<and> \<not> worker_ended s dlid"
  by (auto simp: worker_aborted_def worker_starting_def worker_running_def worker_ended_def
      split: option.splits)

lemma aborted_in_dom: "worker_aborted s dlid \<Longrightarrow> dlid \<in> dom (downloads s)"
  by (auto simp: worker_aborted_def split: option.splits)

lemma worker_aborted_step:
  assumes "ids_below_counter s" and "worker_aborted s dlid"
  shows "worker_aborted (step s a) dlid"
proof (cases a)
  case (Submit u ts)
  from aborted_in_dom [OF assms(2)] assms(1) have "dlid \<noteq> download_counter s"
    by (auto simp: ids_below_counter_def)
  with assms(2) Submit show ?thesis
    by (auto simp: start_download_def Let_def app_log_def worker_aborted_def)
next
  case (Cancel k ts)
  have "worker_aborted (click_stop s k ts) dlid = worker_aborted s dlid"
    by (rule worker_aborted_cong) (rule click_stop_frame)
  with assms(2) Cancel show ?thesis by simp
next
  case Flush
  have "worker_aborted (snd (flush_logs s)) dlid = worker_aborted s dlid"
    by (rule worker_aborted_cong) (rule flush_frame)
  with assms(2) Flush show ?thesis by simp
next
  case (Fetch k f)
  show ?thesis
  proof (cases "k = dlid")
    case True
    with aborted_not_alive [OF assms(2)] have "worker_step s k f = s" by (cases f) simp_all
    with assms(2) Fetch show ?thesis by simp
  next
    case False
    have "worker_aborted (worker_step s k f) dlid = worker_aborted s dlid"
      using False by (intro worker_aborted_cong) (simp add: worker_step_other)
    with assms(2) Fetch show ?thesis by simp
  qed
qed

lemma worker_aborted_run:
  "ids_below_counter s \<Longrightarrow> worker_aborted s dlid \<Longrightarrow> worker_aborted (run s acts) dlid"
proof (induction acts arbitrary: s)
  case Nil
  then show ?case by (simp add: run_def)
next
  case (Cons a acts)
  from Cons.prems have "ids_below_counter (step s a)" "worker_aborted (step s a) dlid"
    by (simp_all add: step_terminal(2) worker_aborted_step)
  from Cons.IH [OF this] show ?case by (simp add: run_def)
qed

lemma run_append: "run s (xs @ ys) = run (run s xs) ys"
  by (simp add: run_def)

lemma published_append:
  "published s (xs @ ys) = published s xs @ published (run s xs) ys"
  by (induction xs arbitrary: s) (simp_all add: run_Nil run_Cons del: step.simps)

lemma aborted_never_terminal:
  assumes "worker_aborted (run init acts) dlid"
  shows "terminal_events dlid (published init (acts @ later)) = []"
proof -
  have i: "ids_below_counter (run init acts)"
    using run_terminal [OF init_invariants(1), of 0 acts] by simp
  from worker_aborted_run [OF i assms, of later]
  have "\<not> worker_ended (run init (acts @ later)) dlid"
    by (auto simp: run_append dest: aborted_not_alive)
  moreover have "\<not> worker_ended init dlid" by (simp add: worker_ended_def init_def)
  ultimately show ?thesis
    using run_terminal [OF init_invariants(1), of dlid "acts @ later"] by simp
qed

lemma fetcher_exits_state:
  "run init fetcher_exits =
     \<lparr>log_q = [], event_q = [],
      downloads = [1 \<mapsto> \<lparr>item_id = 1, title = preparing_title, url = example_url,
         status = ascii ''downloading'', progress = 0, speed = [], eta = None, filepath = [],
         cancel_event = Some False, thread = Some Aborted,
         widgets = Some (new_row preparing_title)\<rparr>],
      download_counter = 2\<rparr>"
  by (simp add: fetcher_exits_def run_def init_def start_download_def app_log_def Let_def
      strip_example_url flush_logs_def add_download_row_def worker_starting_def
      worker_running_def set_thread_def)

lemma folder_fails_state:
  "run init folder_fails =
     \<lparr>log_q = [], event_q = [],
      downloads = [1 \<mapsto> \<lparr>item_id = 1, title = preparing_title, url = example_url,
         status = ascii ''downloading'', progress = 0, speed = [], eta = None, filepath = [],
         cancel_event = Some False, thread = Some Aborted,
         widgets = Some (new_row preparing_title)\<rparr>],
      download_counter = 2\<rparr>"
  by (simp add: folder_fails_def run_def init_def start_download_def app_log_def Let_def
      strip_example_url flush_logs_def add_download_row_def worker_starting_def
      worker_running_def set_thread_def)

lemma published_aborts:
  "published init fetcher_exits = [EvAdd 1 preparing_title]"
  "published init folder_fails = [EvAdd 1 preparing_title]"
  by (simp_all add: fetcher_exits_def folder_fails_def puts_submit puts_thread_steps init_def
      strip_example_url del: step.simps)

lemma worker_ended_run:
  "ids_below_counter s \<Longrightarrow> worker_ended s dlid \<Longrightarrow> worker_ended (run s acts) dlid"
proof (induction acts arbitrary: s)
  case Nil
  then show ?case by (simp add: run_def)
next
  case (Cons a acts)
  from Cons.prems have "ids_below_counter (step s a)" "worker_ended (step s a) dlid"
    by (simp_all add: step_terminal(2) worker_ended_step)
  from Cons.IH [OF this] show ?case by (simp add: run_def)
qed

lemma ended_one_terminal:
  assumes "worker_ended (run init acts) dlid"
  shows "length (terminal_events dlid (published init (acts @ later))) = 1"
proof -
  have i: "ids_below_counter (run init acts)"
    using run_terminal [OF init_invariants(1), of 0 acts] by simp
  from worker_ended_run [OF i assms, of later]
  have "worker_ended (run init (acts @ later)) dlid" by (simp add: run_append)
  moreover have "\<not> worker_ended init dlid" by (simp add: worker_ended_def init_def)
  ultimately show ?thesis
    using run_terminal [OF init_invariants(1), of dlid "acts @ later"] by simp
qed

section \<open>Properties\<close>

text \<open>
  C1, as the code has it. \<^verbatim>\<open>_download_worker\<close> puts a terminal event only at the end of
  its \<^verbatim>\<open>try\<close> block and in its \<^verbatim>\<open>except Exception\<close> handler. A fetcher that raises
  \<^verbatim>\<open>SystemExit\<close> is not caught by that handler, and \<^verbatim>\<open>get_downloads_folder()\<close> is
  called before the \<^verbatim>\<open>try\<close> block: in both executions of the first theorem the thread
  of the job is over, no terminal event has been published, the queue is empty and the
  job is still shown as \<^verbatim>\<open>downloading\<close>.
\<close>

theorem thread_over_without_terminal_event_counterexample:
  "worker_aborted (run init fetcher_exits) 1
   \<and> terminal_events 1 (published init fetcher_exits) = []
   \<and> event_q (run init fetcher_exits) = []
   \<and> map_option status (downloads (run init fetcher_exits) 1) = Some (ascii ''downloading'')
   \<and> worker_aborted (run init folder_fails) 1
   \<and> terminal_events 1 (published init folder_fails) = []
   \<and> event_q (run init folder_fails) = []
   \<and> map_option status (downloads (run init folder_fails) 1) = Some (ascii ''downloading'')"
  by (simp add: fetcher_exits_state folder_fails_state published_aborts worker_aborted_def
      terminal_events_def)

text \<open>
  C1, amended. In every execution from the initial state, the events published for a job
  contain exactly one terminal event once its worker has left the \<^verbatim>\<open>try\<close> block through
  the done put or through the handler, and none otherwise, so never more than one. Every job
  in the registry has a thread that is starting, running, ended or aborted. A starting
  thread enters the \<^verbatim>\<open>try\<close> block when \<^verbatim>\<open>get_downloads_folder()\<close> returns and aborts
  without an event when it raises. A running worker ends with exactly one terminal event:
  the done event when the fetcher returns, the status event of the handler (cancelled or
  failed) when the fetcher or the hook raises an \<^verbatim>\<open>Exception\<close>; it aborts without an event
  when the fetcher raises an exception that is not an \<^verbatim>\<open>Exception\<close>. Whatever follows,
  an aborted job never gets a terminal event and an ended job keeps its single one. Clicks
  on the stop button may be interleaved anywhere.
\<close>

theorem one_terminal_event_per_job:
  "let s = run init acts in
     length (terminal_events dlid (published init acts)) = (if worker_ended s dlid then 1 else 0)
     \<and> (dlid \<in> dom (downloads s) \<longrightarrow>
          worker_starting s dlid \<or> worker_running s dlid \<or> worker_ended s dlid
          \<or> worker_aborted s dlid)
     \<and> (worker_starting s dlid \<longrightarrow>
          puts s (Fetch dlid FolderReady) = []
          \<and> worker_running (step s (Fetch dlid FolderReady)) dlid
          \<and> puts s (Fetch dlid (FolderFails msg)) = []
          \<and> worker_aborted (step s (Fetch dlid (FolderFails msg))) dlid)
     \<and> (worker_running s dlid \<longrightarrow>
          puts s (Fetch dlid (Returns path)) = [EvDone dlid path]
          \<and> worker_ended (step s (Fetch dlid (Returns path))) dlid
          \<and> puts s (Fetch dlid (Raises msg)) = [EvStatus dlid (except_status s dlid msg)]
          \<and> worker_ended (step s (Fetch dlid (Raises msg))) dlid
          \<and> (\<forall>e. progress_hook s dlid d = Inl e \<longrightarrow>
                puts s (Fetch dlid (Notification d)) = [EvStatus dlid (except_status s dlid e)]
                \<and> worker_ended (step s (Fetch dlid (Notification d))) dlid)
          \<and> puts s (Fetch dlid (Escapes msg)) = []
          \<and> worker_aborted (step s (Fetch dlid (Escapes msg))) dlid)
     \<and> (worker_aborted s dlid \<longrightarrow>
          terminal_events dlid (published init (acts @ later)) = [])
     \<and> (worker_ended s dlid \<longrightarrow>
          length (terminal_events dlid (published init (acts @ later))) = 1)"
proof -
  have "\<not> worker_ended init dlid" by (simp add: worker_ended_def init_def)
  with run_terminal [OF init_invariants(1), of dlid acts]
  have a: "length (terminal_events dlid (published init acts))
             = (if worker_ended (run init acts) dlid then 1 else 0)"
    by simp
  have b: "dlid \<in> dom (downloads (run init acts)) \<longrightarrow>
             worker_starting (run init acts) dlid \<or> worker_running (run init acts) dlid
             \<or> worker_ended (run init acts) dlid \<or> worker_aborted (run init acts) dlid"
    using threads_started_run [OF init_invariants(2), of acts]
    by (simp add: threads_started_def)
  have c: "worker_aborted (run init acts) dlid \<longrightarrow>
             terminal_events dlid (published init (acts @ later)) = []"
    using aborted_never_terminal by blast
  have d: "worker_ended (run init acts) dlid \<longrightarrow>
             length (terminal_events dlid (published init (acts @ later))) = 1"
    using ended_one_terminal by blast
  show ?thesis
    unfolding Let_def
    using a b c d
    by (simp add: puts_returns puts_raises puts_hook_raises ended_after_end puts_thread_steps
        after_thread_steps del: step.simps)
qed

theorem one_terminal_event_per_job_witness:
  "worker_running (run init stopped_job) 1
   \<and> terminal_events 1 (published init stopped_job) = []
   \<and> progress_hook (run init stopped_job) 1 (downloading 400 None)
        = Inl (ascii ''USER_CANCELLED'')
   \<and> puts (run init stopped_job) (Fetch 1 (Returns example_path)) = [EvDone 1 example_path]
   \<and> puts (run init stopped_job) (Fetch 1 (Raises (ascii ''HTTP Error 404'')))
        = [EvStatus 1 cancelled_text]
   \<and> puts (run init stopped_job) (Fetch 1 (Notification (downloading 400 None)))
        = [EvStatus 1 cancelled_text]
   \<and> worker_ended (step (run init stopped_job) (Fetch 1 (Notification (downloading 400 None)))) 1
   \<and> worker_aborted (step (run init stopped_job) (Fetch 1 (Escapes (ascii ''1'')))) 1
   \<and> worker_starting (run init [Submit example_url []]) 1
   \<and> worker_running (step (run init [Submit example_url []]) (Fetch 1 FolderReady)) 1
   \<and> worker_aborted
        (step (run init [Submit example_url []]) (Fetch 1 (FolderFails (ascii ''denied'')))) 1
   \<and> worker_aborted (run init fetcher_exits) 1
   \<and> terminal_events 1 (published init (fetcher_exits @ [Fetch 1 (Returns example_path)])) = []
   \<and> worker_ended (run init done_job) 1
   \<and> length (terminal_events 1 (published init done_job)) = 1
   \<and> length (terminal_events 1
        (published init (done_job @ [Fetch 1 (Raises (ascii ''HTTP Error 404''))]))) = 1"
proof -
  let ?s = "run init stopped_job"
  let ?d = "downloading 400 None"
  let ?m = "ascii ''HTTP Error 404''"
  have r: "worker_running ?s 1" and e: "\<not> worker_ended ?s 1" and c: "cancel_is_set ?s 1"
    and na: "\<not> worker_aborted ?s 1" and ns: "\<not> worker_starting ?s 1"
    by (simp_all add: stopped_job_state worker_running_def worker_ended_def cancel_is_set_def
        worker_aborted_def worker_starting_def)
  have h: "progress_hook ?s 1 ?d = Inl (ascii ''USER_CANCELLED'')"
    using c by (simp add: progress_hook_def downloading_def total_of_def Let_def)
  have x: "except_status ?s 1 msg = cancelled_text" for msg
    using c by (simp add: except_status_def)
  have st: "worker_starting (run init [Submit example_url []]) 1"
    by (simp add: submitted_state worker_starting_def)
  have ab: "worker_aborted (run init fetcher_exits) 1"
    by (simp add: fetcher_exits_state worker_aborted_def)
  have en: "worker_ended (run init done_job) 1"
    by (simp add: done_state worker_ended_def)
  note t1 = one_terminal_event_per_job
         [where dlid = 1 and acts = stopped_job and path = example_path and msg = ?m
            and d = ?d and later = "[]"]
  note t2 = one_terminal_event_per_job
         [where dlid = 1 and acts = "[Submit example_url []]" and path = example_path
            and msg = "ascii ''denied''" and d = ?d and later = "[]"]
  note t3 = one_terminal_event_per_job
         [where dlid = 1 and acts = fetcher_exits and path = example_path and msg = ?m
            and d = ?d and later = "[Fetch 1 (Returns example_path)]"]
  note t4 = one_terminal_event_per_job
         [where dlid = 1 and acts = done_job and path = example_path and msg = ?m
            and d = ?d and later = "[Fetch 1 (Raises ?m)]"]
  have w1: "terminal_events 1 (published init stopped_job) = []
      \<and> puts ?s (Fetch 1 (Returns example_path)) = [EvDone 1 example_path]
      \<and> puts ?s (Fetch 1 (Raises ?m)) = [EvStatus 1 cancelled_text]
      \<and> puts ?s (Fetch 1 (Notification ?d)) = [EvStatus 1 cancelled_text]
      \<and> worker_ended (step ?s (Fetch 1 (Notification ?d))) 1"
    using t1 r e h x by (simp add: Let_def del: step.simps)
  have w1e: "worker_aborted (step ?s (Fetch 1 (Escapes (ascii ''1'')))) 1"
    using one_terminal_event_per_job
         [where dlid = 1 and acts = stopped_job and path = example_path
            and msg = "ascii ''1''" and d = ?d and later = "[]"] r
    by (simp add: Let_def del: step.simps)
  have w2: "worker_running (step (run init [Submit example_url []]) (Fetch 1 FolderReady)) 1
      \<and> worker_aborted
          (step (run init [Submit example_url []]) (Fetch 1 (FolderFails (ascii ''denied'')))) 1"
    using t2 st by (simp add: Let_def del: step.simps)
  have w3: "terminal_events 1 (published init (fetcher_exits @ [Fetch 1 (Returns example_path)]))
              = []"
    using t3 ab by (simp add: Let_def del: step.simps)
  have w4: "length (terminal_events 1 (published init done_job)) = 1
      \<and> length (terminal_events 1 (published init (done_job @ [Fetch 1 (Raises ?m)]))) = 1"
    using t4 en by (simp add: Let_def del: step.simps)
  from r h st ab en w1 w1e w2 w3 w4 show ?thesis by blast
qed

text \<open>
  C2. When the calls of the \<^verbatim>\<open>try\<close> block return for a running worker, the worker
  puts the done event with the path whatever the state of the token, no further event of
  the job is published afterwards, and after any later actions (among them clicks on the
  stop button of that job) the next \<^verbatim>\<open>_flush_logs\<close> leaves the job with status
  \<^verbatim>\<open>done\<close> and that path.
\<close>

theorem completion_wins_over_late_cancel:
  "worker_running (run init acts1) dlid \<longrightarrow>
     (let s1 = step (run init acts1) (Fetch dlid (Returns path));
          s2 = step (run s1 acts2) Flush
      in puts (run init acts1) (Fetch dlid (Returns path)) = [EvDone dlid path]
         \<and> job_events dlid (published s1 acts2) = []
         \<and> map_option status (downloads s2 dlid) = Some (ascii ''done'')
         \<and> map_option filepath (downloads s2 dlid) = Some path)"
proof
  assume w: "worker_running (run init acts1) dlid"
  let ?sa = "run init acts1"
  let ?sb = "step ?sa (Fetch dlid (Returns path))"
  let ?sc = "run ?sb acts2"
  have r0: "ready ?sa" by (rule ready_run [OF ready_init])
  then have r1: "ready ?sb" by (rule ready_step)
  have e1: "worker_ended ?sb dlid" using w by (rule ended_after_end(1))
  note x = after_end_run [OF r1 e1, of acts2]
  have a: "job_events dlid (published ?sb acts2) = []"
    by (rule conjunct1 [OF x])
  have b: "map_option row_view (settled ?sc dlid) = map_option row_view (settled ?sb dlid)"
    by (rule conjunct1 [OF conjunct2 [OF x]])
  have c: "ready ?sc"
    by (rule conjunct2 [OF conjunct2 [OF x]])
  have f: "downloads (step ?sc Flush) dlid = settled ?sc dlid"
    using step_flush_ready [OF c] by (simp add: settled_flushed del: step.simps)
  note v = same_row_view [OF b]
  have g: "map_option status (settled ?sc dlid) = Some (ascii ''done'')"
    using v settled_returns(1) [OF w, of path] by (simp del: step.simps)
  have h: "map_option filepath (settled ?sc dlid) = Some path"
    using v settled_returns(2) [OF w, of path] by (simp del: step.simps)
  show "let s1 = step (run init acts1) (Fetch dlid (Returns path));
          s2 = step (run s1 acts2) Flush
      in puts (run init acts1) (Fetch dlid (Returns path)) = [EvDone dlid path]
         \<and> job_events dlid (published s1 acts2) = []
         \<and> map_option status (downloads s2 dlid) = Some (ascii ''done'')
         \<and> map_option filepath (downloads s2 dlid) = Some path"
    unfolding Let_def using puts_returns [OF w] a f g h by (simp del: step.simps)
qed

theorem completion_wins_over_late_cancel_witness:
  "worker_running (run init running_job) 1
   \<and> stop_enabled (step (run init running_job) (Fetch 1 (Returns example_path))) 1
   \<and> cancel_is_set
        (run (step (run init running_job) (Fetch 1 (Returns example_path))) [Cancel 1 []]) 1
   \<and> map_option status
        (downloads
           (step (run (step (run init running_job) (Fetch 1 (Returns example_path)))
                    [Cancel 1 []]) Flush) 1) = Some (ascii ''done'')
   \<and> map_option filepath
        (downloads
           (step (run (step (run init running_job) (Fetch 1 (Returns example_path)))
                    [Cancel 1 []]) Flush) 1) = Some example_path"
proof -
  let ?s = "run init running_job"
  have w: "worker_running ?s 1" by (simp add: running_job_state worker_running_def)
  have e: "stop_enabled (step ?s (Fetch 1 (Returns example_path))) 1"
    unfolding running_job_state
    by (simp add: worker_running_def worker_success_def end_worker_def set_thread_def
        stop_enabled_def new_row_def)
  then have c: "cancel_is_set (run (step ?s (Fetch 1 (Returns example_path))) [Cancel 1 []]) 1"
    by (simp add: run_Cons run_Nil cancel_sets_flag del: step.simps)
  from completion_wins_over_late_cancel
         [where ?acts1.0 = running_job and dlid = 1 and path = example_path
            and ?acts2.0 = "[Cancel 1 []]"] w e c
  show ?thesis by (simp add: Let_def del: step.simps)
qed

text \<open>
  C3, as the code has it. When no total is known the hook does not keep the last percent:
  \<^verbatim>\<open>perc = 0\<close> is published and stored. The first theorem is an execution in which the
  job shows 40 and a notification without a total brings it back to 0.
\<close>

theorem unknown_total_resets_percent_counterexample:
  "total_of (downloading 500 None) = None
   \<and> map_option progress (downloads (run init known_total) 1) = Some 40
   \<and> puts (run init known_total) (Fetch 1 (Notification (downloading 500 None)))
       = [EvProgress 1 0 [] None]
   \<and> map_option progress
        (downloads
           (step (step (run init known_total) (Fetch 1 (Notification (downloading 500 None))))
              Flush) 1) = Some 0"
proof -
  have a: "total_of (downloading 500 None) = None"
    by (simp add: total_of_def downloading_def)
  have b: "map_option progress (downloads (run init known_total) 1) = Some 40"
    by (simp add: known_total_state)
  have c: "puts (run init known_total) (Fetch 1 (Notification (downloading 500 None)))
       = [EvProgress 1 0 [] None]"
    unfolding known_total_state
    by (simp add: puts_def worker_running_def progress_hook_def downloading_def total_of_def
        cancel_is_set_def)
  have d: "map_option progress
        (downloads
           (step (step (run init known_total) (Fetch 1 (Notification (downloading 500 None))))
              Flush) 1) = Some 0"
    unfolding total_lost_run [symmetric] by (simp add: total_lost_state)
  from a b c d show ?thesis by blast
qed

text \<open>
  C3, amended: without a total (none, or zero) the percent is 0; with a total it is
  \<^verbatim>\<open>int(downloaded / total * 100)\<close> in double precision (for 29 bytes of 100 that is 28,
  see \<open>int_percent_examples\<close>). For a running worker whose token is not set, a
  \<^verbatim>\<open>downloading\<close> notification puts exactly the progress event with that percent, the
  speed and the ETA, and the next \<^verbatim>\<open>_flush_logs\<close> stores the three values in the job.
\<close>

theorem progress_event_percent:
  "(total_of d = None \<or> total_of d = Some 0 \<longrightarrow> percent_of d = Inr 0)
   \<and> (total_of d = Some t \<and> t \<noteq> 0 \<longrightarrow> percent_of d = int_percent (downloaded_of d) t)
   \<and> (worker_running (run init acts) dlid \<and> \<not> cancel_is_set (run init acts) dlid
        \<and> d_status d = Some (ascii ''downloading'') \<and> percent_of d = Inr p \<longrightarrow>
         puts (run init acts) (Fetch dlid (Notification d))
           = [EvProgress dlid p (speed_of d) (d_eta d)]
         \<and> map_option progress
             (downloads (step (step (run init acts) (Fetch dlid (Notification d))) Flush) dlid)
            = Some p
         \<and> map_option speed
             (downloads (step (step (run init acts) (Fetch dlid (Notification d))) Flush) dlid)
            = Some (speed_of d)
         \<and> map_option eta
             (downloads (step (step (run init acts) (Fetch dlid (Notification d))) Flush) dlid)
            = Some (d_eta d))"
proof (intro conjI impI)
  assume "total_of d = None \<or> total_of d = Some 0"
  then show "percent_of d = Inr 0" by (auto simp: percent_of_def)
next
  assume "total_of d = Some t \<and> t \<noteq> 0"
  then show "percent_of d = int_percent (downloaded_of d) t" by (simp add: percent_of_def)
next
  assume h: "worker_running (run init acts) dlid \<and> \<not> cancel_is_set (run init acts) dlid
        \<and> d_status d = Some (ascii ''downloading'') \<and> percent_of d = Inr p"
  let ?sa = "run init acts"
  let ?ev = "EvProgress dlid p (speed_of d) (d_eta d)"
  let ?sb = "step ?sa (Fetch dlid (Notification d))"
  from h have w: "worker_running ?sa dlid" by simp
  from h notify_progress [of ?sa dlid d p] have
    e: "event_q ?sb = event_q ?sa @ [?ev]" and m: "downloads ?sb = downloads ?sa"
    by simp_all
  from w obtain item where i: "downloads ?sa dlid = Some item"
    by (auto simp: worker_running_def split: option.splits)
  have "ready ?sb" by (intro ready_step ready_run ready_init)
  then have f: "downloads (step ?sb Flush) dlid = settled ?sb dlid"
    by (simp add: step_flush_ready settled_flushed del: step.simps)
  have s: "settled ?sb dlid = map_option (apply_event ?ev) (settled ?sa dlid)"
    by (rule settled_snoc [OF m e]) simp
  have x: "settled ?sa dlid \<noteq> None" using i by (simp add: settled_def)
  show "puts ?sa (Fetch dlid (Notification d)) = [?ev]"
    using e by (simp add: puts_def del: step.simps)
  show "map_option progress (downloads (step ?sb Flush) dlid) = Some p"
    using x unfolding f s by (auto simp: option.map_comp comp_def)
  show "map_option speed (downloads (step ?sb Flush) dlid) = Some (speed_of d)"
    using x unfolding f s by (auto simp: option.map_comp comp_def)
  show "map_option eta (downloads (step ?sb Flush) dlid) = Some (d_eta d)"
    using x unfolding f s by (auto simp: option.map_comp comp_def)
qed

theorem progress_event_percent_witness:
  "total_of (downloading 500 None) = None \<and> percent_of (downloading 500 None) = Inr 0
   \<and> total_of (downloading 400 (Some 1000)) = Some 1000
   \<and> percent_of (downloading 400 (Some 1000)) = Inr 40
   \<and> worker_running (run init running_job) 1
   \<and> \<not> cancel_is_set (run init running_job) 1
   \<and> puts (run init running_job) (Fetch 1 (Notification (downloading 400 (Some 1000))))
       = [EvProgress 1 40 [] None]
   \<and> map_option progress
        (downloads
           (step (step (run init running_job)
                    (Fetch 1 (Notification (downloading 400 (Some 1000))))) Flush) 1)
       = Some 40"
proof -
  let ?d = "downloading 400 (Some 1000)"
  let ?u = "downloading 500 None"
  have a: "total_of ?u = None" and b: "total_of ?d = Some 1000"
    and c: "d_status ?d = Some (ascii ''downloading'')"
    and e: "downloaded_of ?d = 400" and f: "speed_of ?d = []" and g: "d_eta ?d = None"
    by (simp_all add: total_of_def downloading_def downloaded_of_def speed_of_def)
  have w: "worker_running (run init running_job) 1"
    and n: "\<not> cancel_is_set (run init running_job) 1"
    by (simp_all add: running_job_state worker_running_def cancel_is_set_def)
  from progress_event_percent [where d = ?u and t = 1 and acts = "[]" and dlid = 1 and p = 0] a
  have u: "percent_of ?u = Inr 0" by simp
  from progress_event_percent [where d = ?d and t = 1000 and acts = "[]" and dlid = 1 and p = 0] b e
  have p: "percent_of ?d = Inr 40" by (simp add: int_percent_examples)
  from progress_event_percent
         [where d = ?d and t = 1000 and acts = running_job and dlid = 1
            and p = 40] c p w n f g
  have "puts (run init running_job) (Fetch 1 (Notification ?d))
          = [EvProgress 1 40 [] None]
        \<and> map_option progress
            (downloads (step (step (run init running_job)
                                (Fetch 1 (Notification ?d))) Flush) 1) = Some 40"
    by (simp del: step.simps)
  with a b u p w n show ?thesis by blast
qed

text \<open>
  C4. A job is cancelled by a click on the stop button of its row, the only caller of
  \<^verbatim>\<open>_stop_download\<close>. In every state that an execution reaches, a job whose status is
  \<^verbatim>\<open>done\<close>, the cancellation text or an error text has its stop button disabled (the
  handler that stored the status disabled it in the same call), so a click on it calls
  nothing: the state, with the job and all its fields, stays as it is and no event is
  published. In any state, a click on a stop button publishes no event and leaves the
  status, progress, speed, ETA, path, title and URL of every job as they are; no step of a
  click can raise.
\<close>

theorem cancel_on_terminal_job_is_noop:
  "(job_terminal (run init acts) dlid \<longrightarrow>
      \<not> stop_enabled (run init acts) dlid
      \<and> step (run init acts) (Cancel dlid ts) = run init acts
      \<and> puts (run init acts) (Cancel dlid ts) = [])
   \<and> puts s (Cancel k ts) = []
   \<and> map_option row_view (downloads (step s (Cancel k ts)) j)
        = map_option row_view (downloads s j)"
proof -
  have i: "ids_below_counter init" by (rule init_invariants(1))
  have g: "stop_guarded (run init acts)"
    by (rule stop_guarded_run [OF i stop_guarded_init])
  have a: "job_terminal (run init acts) dlid \<longrightarrow>
      \<not> stop_enabled (run init acts) dlid
      \<and> step (run init acts) (Cancel dlid ts) = run init acts
      \<and> puts (run init acts) (Cancel dlid ts) = []"
    using terminal_not_enabled [OF g, of dlid] by (simp add: click_stop_def)
  have b: "map_option row_view (downloads (step s (Cancel k ts)) j)
        = map_option row_view (downloads s j)"
    by (simp add: click_stop_fields)
  from a b show ?thesis by simp
qed

theorem cancel_on_terminal_job_is_noop_witness:
  "job_terminal (run init done_job) 1
   \<and> map_option status (downloads (run init done_job) 1) = Some (ascii ''done'')
   \<and> step (run init done_job) (Cancel 1 []) = run init done_job
   \<and> job_terminal (run init cancelled_job) 1
   \<and> map_option status (downloads (run init cancelled_job) 1) = Some cancelled_text
   \<and> step (run init cancelled_job) (Cancel 1 []) = run init cancelled_job
   \<and> job_terminal (run init failed_job) 1
   \<and> map_option status (downloads (run init failed_job) 1)
        = Some (error_prefix @ ascii ''HTTP Error 404'')
   \<and> step (run init failed_job) (Cancel 1 []) = run init failed_job
   \<and> stop_enabled (run init running_job) 1
   \<and> step (run init running_job) (Cancel 1 []) = run init stopped_job"
proof -
  have a: "job_terminal (run init done_job) 1"
    and a': "map_option status (downloads (run init done_job) 1) = Some (ascii ''done'')"
    by (simp_all add: done_state job_terminal_def terminal_status_def)
  have b: "job_terminal (run init cancelled_job) 1"
    and b': "map_option status (downloads (run init cancelled_job) 1) = Some cancelled_text"
    by (simp_all add: cancelled_job_state job_terminal_def terminal_status_def)
  have c: "job_terminal (run init failed_job) 1"
    and c': "map_option status (downloads (run init failed_job) 1)
               = Some (error_prefix @ ascii ''HTTP Error 404'')"
    by (simp_all add: failed_job_state job_terminal_def terminal_status_def)
  have d: "stop_enabled (run init running_job) 1"
    by (simp add: running_job_state stop_enabled_def new_row_def)
  have e: "step (run init running_job) (Cancel 1 []) = run init stopped_job"
    by (simp add: running_job_def stopped_job_def run_def)
  from cancel_on_terminal_job_is_noop [where acts = done_job and dlid = 1 and ts = "[]"]
       cancel_on_terminal_job_is_noop [where acts = cancelled_job and dlid = 1 and ts = "[]"]
       cancel_on_terminal_job_is_noop [where acts = failed_job and dlid = 1 and ts = "[]"]
       a a' b b' c c' d e
  show ?thesis by (simp del: step.simps)
qed

text \<open>
  C5, as the code has it. The hook computes each percent from the notification alone and
  compares it with nothing, so the percent drops when the fetcher loses the total. The
  first theorem is that execution: 40, then 0, the job being in status
  \<^verbatim>\<open>downloading\<close> at both events.
\<close>

theorem progress_drops_counterexample:
  "progress_values 1 (published init total_lost) = [40, 0]
   \<and> \<not> sorted (progress_values 1 (published init total_lost))
   \<and> map_option status (downloads (run init known_total) 1) = Some (ascii ''downloading'')
   \<and> map_option status (downloads (run init total_lost) 1) = Some (ascii ''downloading'')"
  by (simp add: published_total_lost known_total_state total_lost_state)

text \<open>
  C5, amended: when every \<^verbatim>\<open>downloading\<close> notification of a job reports the same positive
  total and the byte counts are non-negative and never decrease, the percents of its
  progress events never decrease.
\<close>

theorem progress_sorted_for_steady_fetcher:
  "0 < t \<and> steady t (notifications dlid acts) \<longrightarrow>
     sorted (progress_values dlid (published init acts))"
  using progress_sorted [of t dlid acts init] by blast

theorem progress_sorted_for_steady_fetcher_witness:
  "(0::int) < 1000 \<and> steady 1000 (notifications 1 scenario_a)
   \<and> progress_values 1 (published init scenario_a) = [40, 100]
   \<and> sorted (progress_values 1 (published init scenario_a))"
proof -
  have s: "steady 1000 (notifications 1 scenario_a)"
    by (simp add: scenario_a_def steady_def downloading_def finished_def total_of_def
        downloaded_of_def ascii_def)
  from progress_sorted_for_steady_fetcher [of 1000 1 scenario_a] s
  show ?thesis by (simp add: published_scenario_a)
qed

text \<open>
  C6. A submission whose text is empty after \<^verbatim>\<open>strip()\<close> is rejected at once with the
  information dialog; the application state is returned as it was (no job record, no event,
  no thread, the counter untouched). In \<^verbatim>\<open>main.py\<close> the view shows the error text and starts
  no thread.
\<close>

theorem empty_url_rejected:
  "strip url_var = [] \<and> strip (url_input_value v) = [] \<longrightarrow>
     start_download s url_var ts = (Some (ShowInfo required_title required_message), s)
     \<and> step s (Submit url_var ts) = s
     \<and> puts s (Submit url_var ts) = []
     \<and> view_start_download v platform =
          v\<lparr>url_input_error_text := Some invalid_url_text, inline_info_value := []\<rparr>
     \<and> started (view_start_download v platform) = started v"
  by (simp add: start_download_def view_start_download_def puts_def)

theorem empty_url_rejected_witness:
  "let v = \<lparr>url_input_value = ascii '' '', url_input_error_text = None,
             inline_info_value = [], download_button_disabled = False, started = []\<rparr>
   in strip [] = [] \<and> strip (url_input_value v) = []
      \<and> start_download init [] [] = (Some (ShowInfo required_title required_message), init)
      \<and> step init (Submit [] []) = init
      \<and> puts init (Submit [] []) = []
      \<and> url_input_error_text (view_start_download v None) = Some invalid_url_text
      \<and> started (view_start_download v None) = []"
proof -
  let ?v = "\<lparr>url_input_value = ascii '' '', url_input_error_text = None,
             inline_info_value = [], download_button_disabled = False, started = []\<rparr>"
  have a: "strip [] = []" and b: "strip (url_input_value ?v) = []"
    by (simp_all add: strip_def ascii_def py_isspace_def)
  from empty_url_rejected [where url_var = "[]" and v = ?v and s = init and ts = "[]"
      and platform = None] a b
  show ?thesis by (simp add: Let_def del: step.simps)
qed

text \<open>
  C7. The identifiers handed out in an execution from the initial state are strictly
  increasing, so none is used twice. A submission with a non-empty text takes the current
  counter, which is neither in the registry nor among the identifiers handed out before,
  stores the job under it with status \<^verbatim>\<open>pending\<close>, advances the counter by one, and the
  job stays in the registry in every later state.
\<close>

theorem submissions_get_fresh_increasing_ids:
  "sorted_wrt (<) (assigned_ids (published init acts))
   \<and> (strip url_var \<noteq> [] \<longrightarrow>
        (let s = run init acts; dlid = download_counter s; s' = step s (Submit url_var ts)
         in puts s (Submit url_var ts) = [EvAdd dlid preparing_title]
            \<and> dlid \<notin> dom (downloads s)
            \<and> dlid \<notin> set (assigned_ids (published init acts))
            \<and> downloads s' =
                 (downloads s)(dlid \<mapsto>
                    \<lparr>item_id = dlid, title = preparing_title, url = strip url_var,
                     status = ascii ''pending'', progress = 0, speed = [], eta = None,
                     filepath = [], cancel_event = Some False, thread = Some Starting,
                     widgets = None\<rparr>)
            \<and> download_counter s' = dlid + 1
            \<and> dlid \<in> dom (downloads (run s' acts'))))"
proof -
  have inv: "ids_below_counter (run init acts)"
    using run_terminal [OF init_invariants(1), of 0 acts] by simp
  have a: "sorted_wrt (<) (assigned_ids (published init acts))"
    and b: "\<forall>k \<in> set (assigned_ids (published init acts)). k < download_counter (run init acts)"
    using assigned_ids_run [of init acts] by auto
  have c: "download_counter (run init acts) \<notin> dom (downloads (run init acts))"
    using inv by (auto simp: ids_below_counter_def)
  have d: "download_counter (run init acts) \<notin> set (assigned_ids (published init acts))"
    using b by auto
  have f: "download_counter (run init acts)
             \<in> dom (downloads (run (step (run init acts) (Submit url_var ts)) acts'))"
    if "strip url_var \<noteq> []"
  proof -
    have "download_counter (run init acts)
            \<in> dom (downloads (step (run init acts) (Submit url_var ts)))"
      using that by (simp add: start_download_def Let_def app_log_def)
    with dom_run show ?thesis by blast
  qed
  have g: "strip url_var \<noteq> [] \<Longrightarrow>
      downloads (step (run init acts) (Submit url_var ts)) =
        (downloads (run init acts))(download_counter (run init acts) \<mapsto>
           \<lparr>item_id = download_counter (run init acts), title = preparing_title,
            url = strip url_var, status = ascii ''pending'', progress = 0, speed = [],
            eta = None, filepath = [], cancel_event = Some False, thread = Some Starting,
            widgets = None\<rparr>)
      \<and> download_counter (step (run init acts) (Submit url_var ts))
          = download_counter (run init acts) + 1"
    by (simp add: start_download_def Let_def app_log_def)
  show ?thesis
    using a c d f g
    by (simp add: Let_def puts_submit del: step.simps)
qed

theorem submissions_get_fresh_increasing_ids_witness:
  "strip example_url \<noteq> []
   \<and> assigned_ids (published init [Submit example_url [], Submit example_url []]) = [1, 2]
   \<and> download_counter (run init [Submit example_url [], Submit example_url []]) = 3
   \<and> puts (run init [Submit example_url [], Submit example_url []]) (Submit example_url [])
       = [EvAdd 3 preparing_title]
   \<and> 3 \<notin> dom (downloads (run init [Submit example_url [], Submit example_url []]))
   \<and> map_option status
        (downloads (step (run init [Submit example_url [], Submit example_url []])
           (Submit example_url [])) 3) = Some (ascii ''pending'')"
proof -
  let ?acts = "[Submit example_url [], Submit example_url []]"
  have s: "strip example_url \<noteq> []" by (simp add: strip_example_url)
  have c: "download_counter (run init ?acts) = 3"
    by (simp add: run_def init_def start_download_def app_log_def Let_def strip_example_url)
  have p: "assigned_ids (published init ?acts) = [1, 2]"
    by (simp add: puts_submit init_def start_download_def app_log_def Let_def
        strip_example_url assigned_ids_def)
  from submissions_get_fresh_increasing_ids
         [where acts = ?acts and url_var = example_url and ts = "[]" and acts' = "[]"] s c p
  show ?thesis by (simp add: Let_def del: step.simps)
qed

text \<open>
  C8, as the code has it. The worker forwards each notification as it arrives, so a
  fetcher that reports \<^verbatim>\<open>finished\<close> and then \<^verbatim>\<open>downloading\<close> yields a status event
  before a progress event. The first theorem is that execution: its fetcher is not orderly,
  and the kinds of its events, handled in the order they were put, are not in the order
  the specification states.
\<close>

theorem event_order_counterexample:
  "\<not> orderly_from False 1 out_of_order
   \<and> job_kinds 1 (published init out_of_order) = [Added, StatusChanged, Progress, Completed]
   \<and> \<not> spec_order_from 0 (job_kinds 1 (published init out_of_order))
   \<and> delivered init out_of_order = published init out_of_order"
proof -
  have o: "\<not> orderly_from False 1 out_of_order"
    by (simp add: out_of_order_def finished_def downloading_def ascii_def)
  have k: "job_kinds 1 (published init out_of_order) = [Added, StatusChanged, Progress, Completed]"
    by (simp add: published_out_of_order job_kinds_def job_events_def ascii_def
        cancelled_text_def error_prefix_def)
  have r: "run init out_of_order = step (run init (butlast out_of_order)) Flush"
    by (simp add: out_of_order_def run_def)
  have "ready (run init (butlast out_of_order))" by (rule ready_run [OF ready_init])
  then have "event_q (run init out_of_order) = []"
    unfolding r by (simp add: step_flush_ready flushed_def del: step.simps)
  with fifo_run [of init out_of_order]
  have d: "delivered init out_of_order = published init out_of_order"
    by (simp add: init_def)
  from o k d show ?thesis by simp
qed

text \<open>
  C8, amended. When the fetcher of a job is orderly, that is when it notifies
  \<^verbatim>\<open>downloading\<close> any number of times and then \<^verbatim>\<open>finished\<close> at most once, the kinds of
  the events published for the job are in the order of the specification: \<open>Added\<close>, any
  number of \<open>Progress\<close>, at most one \<open>StatusChanged\<close>, at most one of \<open>Completed\<close>, \<open>Failed\<close>,
  \<open>Cancelled\<close>. For every fetcher the kinds are \<open>Added\<close> first, then \<open>Progress\<close> and
  \<open>StatusChanged\<close>, then at most one terminal kind and nothing after it, and a running
  worker answers a \<^verbatim>\<open>finished\<close> notification with one \<open>StatusChanged\<close> event. The
  handlers are called on the events in the order of the puts: the events handled so far,
  followed by those still queued, are the events published, and one more call of
  \<^verbatim>\<open>_flush_logs\<close> handles all of them.
\<close>

theorem events_in_spec_order_for_orderly_fetcher:
  "(orderly_from False dlid acts \<longrightarrow>
      spec_order_from 0 (job_kinds dlid (published init acts)))
   \<and> lifecycle_from 0 (job_kinds dlid (published init acts))
   \<and> (worker_running s dlid \<and> d_status d = Some (ascii ''finished'') \<longrightarrow>
        puts s (Fetch dlid (Notification d)) = [EvStatus dlid (ascii ''finalizing'')]
        \<and> kind_of (EvStatus dlid (ascii ''finalizing'')) = StatusChanged)
   \<and> delivered init acts @ event_q (run init acts) = published init acts
   \<and> event_q (step (run init acts) Flush) = []
   \<and> delivered init (acts @ [Flush]) = published init acts"
proof -
  have o: "orderly_from False dlid acts \<longrightarrow>
      spec_order_from 0 (job_kinds dlid (published init acts))"
    using order_run [OF init_invariants(1), of False dlid acts]
    by (simp add: order_pos_def init_def)
  have a: "lifecycle_from 0 (job_kinds dlid (published init acts))"
    using lifecycle_run [OF init_invariants(1), of dlid acts]
    by (simp add: job_phase_def init_def)
  have f: "worker_running s dlid \<and> d_status d = Some (ascii ''finished'') \<longrightarrow>
        puts s (Fetch dlid (Notification d)) = [EvStatus dlid (ascii ''finalizing'')]
        \<and> kind_of (EvStatus dlid (ascii ''finalizing'')) = StatusChanged"
    by (simp add: puts_def hook_finished)
  have b: "delivered init acts @ event_q (run init acts) = published init acts"
    using fifo_run [of init acts] by (simp add: init_def)
  have "ready (run init acts)" by (rule ready_run [OF ready_init])
  then have c: "event_q (step (run init acts) Flush) = []"
    by (simp add: step_flush_ready flushed_def del: step.simps)
  have p: "published s (xs @ [Flush]) = published s xs" for s xs
    by (induction xs arbitrary: s) (simp_all del: step.simps)
  have "delivered init (acts @ [Flush]) @ event_q (run init (acts @ [Flush]))
          = published init (acts @ [Flush])"
    using fifo_run [of init "acts @ [Flush]"] by (simp add: init_def)
  with c p have d: "delivered init (acts @ [Flush]) = published init acts"
    by (simp add: run_snoc del: step.simps)
  from o a f b c d show ?thesis by blast
qed

theorem events_in_spec_order_for_orderly_fetcher_witness:
  "orderly_from False 1 scenario_a
   \<and> job_kinds 1 (published init scenario_a)
        = [Added, Progress, Progress, StatusChanged, Completed]
   \<and> spec_order_from 0 (job_kinds 1 (published init scenario_a))
   \<and> worker_running (run init running_job) 1
   \<and> puts (run init running_job) (Fetch 1 (Notification finished))
        = [EvStatus 1 (ascii ''finalizing'')]
   \<and> event_q (run init scenario_a) = []
   \<and> delivered init scenario_a = published init scenario_a"
proof -
  have o: "orderly_from False 1 scenario_a"
    by (simp add: scenario_a_def finished_def downloading_def ascii_def)
  have k: "job_kinds 1 (published init scenario_a)
             = [Added, Progress, Progress, StatusChanged, Completed]"
    by (simp add: published_scenario_a job_kinds_def job_events_def ascii_def
        cancelled_text_def error_prefix_def)
  have w: "worker_running (run init running_job) 1"
    by (simp add: running_job_state worker_running_def)
  have s: "d_status finished = Some (ascii ''finished'')" by (simp add: finished_def)
  have x: "scenario_a = butlast scenario_a @ [Flush]"
    by (simp add: scenario_a_def)
  have p: "published init (butlast scenario_a) = published init scenario_a"
    by (simp add: scenario_a_def del: step.simps)
  have r: "run init scenario_a = step (run init (butlast scenario_a)) Flush"
    by (simp add: scenario_a_def run_def)
  from events_in_spec_order_for_orderly_fetcher
         [where dlid = 1 and acts = scenario_a and s = "run init running_job" and d = finished]
       events_in_spec_order_for_orderly_fetcher
         [where dlid = 1 and acts = "butlast scenario_a" and s = "run init running_job"
            and d = finished]
       o k w s x p r
  show ?thesis by (metis)
qed




text \<open>
  C10. The handler reports a cancellation whenever the message contains
  \<^verbatim>\<open>USER_CANCELLED\<close> or the token of the job is set: it puts the status event with the
  cancellation text, never one with the error prefix. A click on the enabled stop button of
  a job sets its token and the token stays set, so any exception that reaches the handler
  later, whatever its message, is reported as cancelled; the handler of that event stores
  the cancellation text as the job's status, shows it in the row and disables the stop
  button.
\<close>

theorem error_after_cancel_is_cancelled:
  "(py_in (ascii ''USER_CANCELLED'') msg \<or> cancel_is_set s dlid \<longrightarrow>
      worker_except s dlid msg =
        s\<lparr>event_q := event_q s @ [EvStatus dlid cancelled_text],
          log_q := log_q s @ [Plain (MsgCancelled dlid)]\<rparr>
      \<and> kind_of (EvStatus dlid (except_status s dlid msg)) = Cancelled)
   \<and> (stop_enabled (run init acts0) dlid \<longrightarrow>
        cancel_is_set (step (run init acts0) (Cancel dlid ts)) dlid)
   \<and> (cancel_is_set (run init acts0) dlid \<and> worker_running (run (run init acts0) acts) dlid \<longrightarrow>
         cancel_is_set (run (run init acts0) acts) dlid
         \<and> puts (run (run init acts0) acts) (Fetch dlid (Raises msg))
             = [EvStatus dlid cancelled_text])
   \<and> (stop_enabled (run init acts0) dlid
        \<and> worker_running (run (step (run init acts0) (Cancel dlid ts)) acts) dlid \<longrightarrow>
         puts (run (step (run init acts0) (Cancel dlid ts)) acts) (Fetch dlid (Raises msg))
           = [EvStatus dlid cancelled_text])
   \<and> (downloads s dlid = Some item \<longrightarrow>
         handle_event s (EvStatus dlid cancelled_text) =
           (None, s\<lparr>downloads := (downloads s)(dlid \<mapsto>
              item\<lparr>status := cancelled_text,
                   widgets := map_option
                     (\<lambda>w. w\<lparr>status_text := cancelled_text, stop_btn := Disabled\<rparr>)
                     (widgets item)\<rparr>)\<rparr>))"
proof -
  have i: "ids_below_counter (run init acts0)"
    using run_terminal [OF init_invariants(1), of 0 acts0] by simp
  have a: "stop_enabled (run init acts0) dlid \<Longrightarrow>
        cancel_is_set (run (step (run init acts0) (Cancel dlid ts)) acts) dlid"
    using i by (simp add: cancel_is_set_run cancel_sets_flag step_terminal(2) del: step.simps)
  have b: "cancel_is_set (run init acts0) dlid \<Longrightarrow>
        cancel_is_set (run (run init acts0) acts) dlid"
    using i by (simp add: cancel_is_set_run)
  have c: "py_in cancelled_text cancelled_text" by (simp add: prefix_py_in)
  have d: "downloads s dlid = Some item \<longrightarrow>
         handle_event s (EvStatus dlid cancelled_text) =
           (None, s\<lparr>downloads := (downloads s)(dlid \<mapsto>
              item\<lparr>status := cancelled_text,
                   widgets := map_option
                     (\<lambda>w. w\<lparr>status_text := cancelled_text, stop_btn := Disabled\<rparr>)
                     (widgets item)\<rparr>)\<rparr>)"
  proof (cases "widgets item")
    case None
    then show ?thesis using c
      by (cases item) (simp add: set_download_status_def Let_def)
  next
    case (Some w)
    with c show ?thesis by (simp add: set_download_status_def Let_def)
  qed
  show ?thesis
    using a b d
    by (auto simp: worker_except_def puts_raises except_status_def cancel_sets_flag
        simp del: step.simps handle_event.simps)
qed

theorem error_after_cancel_is_cancelled_witness:
  "\<not> py_in (ascii ''USER_CANCELLED'') (ascii ''HTTP Error 404'')
   \<and> stop_enabled (run init running_job) 1
   \<and> \<not> cancel_is_set (run init running_job) 1
   \<and> cancel_is_set (run init stopped_job) 1
   \<and> worker_running (run init stopped_job) 1
   \<and> puts (run init stopped_job) (Fetch 1 (Raises (ascii ''HTTP Error 404'')))
        = [EvStatus 1 cancelled_text]
   \<and> event_q (worker_except (run init stopped_job) 1 (ascii ''HTTP Error 404''))
        = [EvStatus 1 cancelled_text]
   \<and> map_option status (downloads (run init cancelled_job) 1) = Some cancelled_text"
proof -
  let ?m = "ascii ''HTTP Error 404''"
  let ?s = "run init stopped_job"
  have n: "\<not> py_in (ascii ''USER_CANCELLED'') ?m" by (simp add: ascii_def)
  have d: "stop_enabled (run init running_job) 1"
    and d': "\<not> cancel_is_set (run init running_job) 1"
    by (simp_all add: running_job_state stop_enabled_def new_row_def cancel_is_set_def)
  have c: "cancel_is_set ?s 1" and w: "worker_running ?s 1"
    by (simp_all add: stopped_job_state cancel_is_set_def worker_running_def)
  have r: "run (step (run init running_job) (Cancel 1 [])) [] = ?s"
    by (simp add: running_job_def stopped_job_def run_def)
  have f: "map_option status (downloads (run init cancelled_job) 1) = Some cancelled_text"
    by (simp add: cancelled_job_state)
  from error_after_cancel_is_cancelled
         [where msg = ?m and s = ?s and dlid = 1 and ?acts0.0 = running_job
            and ts = "[]" and acts = "[]"] n d d' c w r f
  show ?thesis by (simp add: stopped_job_state del: step.simps)
qed

end
